theory Spec2Isabelle
  imports Main "HOL-Library.Word" "HOL-Library.AList" "HOL-Library.Sublist"
begin

unbundle bit_operations_syntax

section \<open>Data model of archive.go\<close>

text \<open>
  A Go \<^verbatim>\<open>error\<close> is modelled by its message; the \<^verbatim>\<open>nil\<close> error is \<open>None\<close>.
\<close>

type_synonym error = string

text \<open>
  A Go \<^verbatim>\<open>map[K]V\<close> is an association list with at most one entry per key:
  \<^verbatim>\<open>v, ok := m[k]\<close> is \<open>map_of m k\<close>, \<^verbatim>\<open>m[k] = v\<close> is \<open>AList.update k v m\<close>, and
  \<^verbatim>\<open>for k, v := range m\<close> visits the entries in the order of the list. Go leaves the
  iteration order open; the theorems below hold for every order of the entries.
\<close>

type_synonym ('k, 'v) gomap = "('k \<times> 'v) list"

text \<open>
  Modelled from the spec: the type \<^verbatim>\<open>Hash\<close> is declared outside archive.go. The spec
  describes it as a 32-byte binary identifier with bytewise equality; it is the 256-bit
  word whose most significant byte is byte 0.
\<close>

type_synonym Hash = "256 word"

text \<open>
  Modelled from the spec: the three implementations of the interface
  \<^verbatim>\<open>ArchiveBackend\<close> (\<^verbatim>\<open>GetFile\<close>, \<^verbatim>\<open>PutFile\<close>, \<^verbatim>\<open>ListFiles\<close>) are outside archive.go.
  A backend is an object store: the files it holds, and which operations fail (the
  transport errors of the spec's backend contract, as a function of the path).
\<close>

record ArchiveBackend =
  files :: "(string, string) gomap"
  getErr :: "string \<Rightarrow> error option"
  putErr :: "string \<Rightarrow> error option"
  listErr :: "string \<Rightarrow> error option"

text \<open>
  \<^verbatim>\<open>type Archive struct\<close>. The mutex is not a field of the model: every method that
  takes it is one atomic step. A \<^verbatim>\<open>nil\<close> backend is \<open>None\<close>.
\<close>

record Archive =
  checkpointFiles :: "(string, (32 word, bool) gomap) gomap"
  allBuckets :: "(Hash, bool) gomap"
  referencedBuckets :: "(Hash, bool) gomap"
  missingBuckets :: int
  backend :: "ArchiveBackend option"

definition rootHASPath :: string where
  "rootHASPath = ''.well-known/stellar-history.json''"

definition concurrency :: nat where
  "concurrency = 32"

definition Categories :: "string list" where
  "Categories = [''history'', ''ledger'', ''transactions'', ''results'', ''scp'']"

definition categoryExt :: "string \<Rightarrow> string" where
  "categoryExt n = (if n = ''history'' then ''json'' else ''xdr.gz'')"

definition categoryRequired :: "string \<Rightarrow> bool" where
  "categoryRequired n = (n \<noteq> ''scp'')"

section \<open>State-mutation primitives\<close>

text \<open>
  Outcome of a call: it returns a value; or the process stops in \<^verbatim>\<open>log.Fatal\<close>; or
  it panics (a write to a \<^verbatim>\<open>nil\<close> map, a call on a \<^verbatim>\<open>nil\<close> backend); or it has not
  returned, because a goroutine it waits for is blocked or was not scheduled up to
  its end.
\<close>

datatype 'a outcome = Returns 'a | Fatal error | Panics | Blocked

text \<open>
  \<^verbatim>\<open>arch.checkpointFiles[cat][chk] = present\<close>. For a category that is not a key of
  \<^verbatim>\<open>checkpointFiles\<close> the inner map is \<^verbatim>\<open>nil\<close> and the assignment panics.
\<close>

definition NoteCheckpointFile :: "string \<Rightarrow> 32 word \<Rightarrow> bool \<Rightarrow> Archive \<Rightarrow> Archive outcome" where
  "NoteCheckpointFile cat chk present arch =
     (case map_of (checkpointFiles arch) cat of
        None \<Rightarrow> Panics
      | Some tab \<Rightarrow>
          Returns (arch\<lparr>checkpointFiles :=
            AList.update cat (AList.update chk present tab) (checkpointFiles arch)\<rparr>))"

definition NoteExistingBucket :: "Hash \<Rightarrow> Archive \<Rightarrow> Archive" where
  "NoteExistingBucket bucket arch =
     arch\<lparr>allBuckets := AList.update bucket True (allBuckets arch)\<rparr>"

definition NoteReferencedBucket :: "Hash \<Rightarrow> Archive \<Rightarrow> Archive" where
  "NoteReferencedBucket bucket arch =
     arch\<lparr>referencedBuckets := AList.update bucket True (referencedBuckets arch)\<rparr>"

definition ClearCachedInfo :: "Archive \<Rightarrow> Archive" where
  "ClearCachedInfo arch =
     arch\<lparr>checkpointFiles :=
            fold (\<lambda>cat m. AList.update cat [] m) Categories (checkpointFiles arch),
          allBuckets := [],
          referencedBuckets := []\<rparr>"

section \<open>Missing checkpoint files and missing buckets\<close>

text \<open>
  \<^verbatim>\<open>_, ok := arch.checkpointFiles[cat][ix]\<close>: reading a \<^verbatim>\<open>nil\<close> inner map gives
  \<^verbatim>\<open>ok = false\<close>.
\<close>

definition checkpointFile_ok :: "Archive \<Rightarrow> string \<Rightarrow> 32 word \<Rightarrow> bool" where
  "checkpointFile_ok arch cat ix =
     (case map_of (checkpointFiles arch) cat of
        None \<Rightarrow> False
      | Some tab \<Rightarrow> map_of tab ix \<noteq> None)"

text \<open>
  \<^verbatim>\<open>CheckCheckpointFilesMissing\<close>; the argument \<open>chks\<close> is the sequence that
  \<^verbatim>\<open>rng.Checkpoints()\<close> delivers (the type \<^verbatim>\<open>Range\<close> is outside archive.go).
\<close>

definition CheckCheckpointFilesMissing ::
  "Archive \<Rightarrow> 32 word list \<Rightarrow> (string, 32 word list) gomap" where
  "CheckCheckpointFilesMissing arch chks =
     fold (\<lambda>cat missing.
             fold (\<lambda>ix missing.
                     if \<not> checkpointFile_ok arch cat ix
                     then AList.update cat (the (map_of missing cat) @ [ix]) missing
                     else missing)
                  chks (AList.update cat [] missing))
          Categories []"

definition CheckBucketsMissing :: "Archive \<Rightarrow> (Hash, bool) gomap" where
  "CheckBucketsMissing arch =
     fold (\<lambda>(k, _) missing.
             if map_of (allBuckets arch) k = None
             then AList.update k True missing
             else missing)
          (referencedBuckets arch) []"

section \<open>Formatting, parsing and paths\<close>

text \<open>
  The verbs of Go's \<^verbatim>\<open>fmt\<close> that archive.go uses on integers. \<open>fmt_hex n\<close> is the
  lowercase hexadecimal numeral of \<open>n\<close>; \<open>fmt_x width prec n\<close> is \<^verbatim>\<open>%<width>.<prec>x\<close>:
  zeros up to the precision, then spaces up to the width.
\<close>

definition hexDigit :: "nat \<Rightarrow> char" where
  "hexDigit d = ''0123456789abcdef'' ! d"

fun fmt_hex :: "nat \<Rightarrow> string" where
  "fmt_hex n = (if n < 16 then [hexDigit n] else fmt_hex (n div 16) @ [hexDigit (n mod 16)])"

declare fmt_hex.simps [simp del]

definition fmt_x :: "nat \<Rightarrow> nat \<Rightarrow> nat \<Rightarrow> string" where
  "fmt_x width prec n =
     (let ds = fmt_hex n;
          zs = replicate (prec - length ds) (CHR ''0'') @ ds
      in replicate (width - length zs) (CHR '' '') @ zs)"

text \<open>\<^verbatim>\<open>strings.Join\<close>.\<close>

fun strings_Join :: "string list \<Rightarrow> string \<Rightarrow> string" where
  "strings_Join [] sep = []"
| "strings_Join [x] sep = x"
| "strings_Join (x # y # xs) sep = x @ sep @ strings_Join (y # xs) sep"

text \<open>
  \<^verbatim>\<open>strconv.ParseUint(s, 16, 32)\<close>: the digits of \<open>s\<close> in base 16, upper or lower
  case; an error for the empty string, for any other character and for a value that
  does not fit 32 bits.
\<close>

definition hexVal :: "char \<Rightarrow> nat option" where
  "hexVal c =
     (let k = of_char c :: nat in
      if 48 \<le> k \<and> k \<le> 57 then Some (k - 48)
      else if 97 \<le> k \<and> k \<le> 102 then Some (k - 97 + 10)
      else if 65 \<le> k \<and> k \<le> 70 then Some (k - 65 + 10)
      else None)"

fun parse_hex :: "nat \<Rightarrow> string \<Rightarrow> nat option" where
  "parse_hex acc [] = Some acc"
| "parse_hex acc (c # cs) =
     (case hexVal c of None \<Rightarrow> None | Some d \<Rightarrow> parse_hex (acc * 16 + d) cs)"

definition ParseUint_16_32 :: "string \<Rightarrow> error + nat" where
  "ParseUint_16_32 s =
     (if s = [] then Inl ''invalid syntax''
      else case parse_hex 0 s of
             None \<Rightarrow> Inl ''invalid syntax''
           | Some n \<Rightarrow> if n < 2 ^ 32 then Inr n else Inl ''value out of range'')"

text \<open>
  \<^verbatim>\<open>path.Clean\<close> and \<^verbatim>\<open>path.Join\<close> of Go's standard library, on the elements of
  the path between slashes. \<open>clean_elems rooted out es\<close> holds the elements written so
  far in \<open>out\<close>, most recent first: an empty element and \<^verbatim>\<open>.\<close> are dropped; \<^verbatim>\<open>..\<close>
  removes the last element written, unless there is none or it is itself a \<^verbatim>\<open>..\<close>
  that could not be resolved, in which case it is kept in an unrooted path and dropped
  in a rooted one.
\<close>

fun split_slash :: "string \<Rightarrow> string \<Rightarrow> string list" where
  "split_slash cur [] = [rev cur]"
| "split_slash cur (c # cs) =
     (if c = CHR ''/'' then rev cur # split_slash [] cs else split_slash (c # cur) cs)"

fun clean_elems :: "bool \<Rightarrow> string list \<Rightarrow> string list \<Rightarrow> string list" where
  "clean_elems rooted out [] = rev out"
| "clean_elems rooted out (e # es) =
     (if e = [] \<or> e = ''.'' then clean_elems rooted out es
      else if e = ''..'' then
        (case out of
           [] \<Rightarrow> if rooted then clean_elems rooted out es
                 else clean_elems rooted [''..''] es
         | o1 # os \<Rightarrow>
             if o1 = ''..'' then clean_elems rooted (''..'' # out) es
             else clean_elems rooted os es)
      else clean_elems rooted (e # out) es)"

definition path_Clean :: "string \<Rightarrow> string" where
  "path_Clean p =
     (if p = [] then ''.''
      else
        let rooted = (hd p = CHR ''/'');
            s = (if rooted then ''/'' else []) @
                strings_Join (clean_elems rooted [] (split_slash [] p)) ''/''
        in if s = [] then ''.'' else s)"

definition path_Join :: "string list \<Rightarrow> string" where
  "path_Join elem =
     (let es = filter (\<lambda>e. e \<noteq> []) elem
      in if es = [] then [] else path_Clean (strings_Join es ''/''))"

text \<open>
  An element that \<^verbatim>\<open>path.Clean\<close> copies as it is: not empty, not \<^verbatim>\<open>.\<close> or \<^verbatim>\<open>..\<close>,
  and without a slash.
\<close>

definition plain_elem :: "string \<Rightarrow> bool" where
  "plain_elem e = (e \<noteq> [] \<and> e \<noteq> ''.'' \<and> e \<noteq> ''..'' \<and> CHR ''/'' \<notin> set e)"

text \<open>
  The regular expressions of archive.go are sequences of literal text, a fixed number
  of lowercase hexadecimal digits (\<^verbatim>\<open>[0-9a-f]{n}\<close>), one such run in a capturing
  group, and the end of the text (\<^verbatim>\<open>$\<close>). \<open>rx_here\<close> matches such a sequence at the
  start of a string and returns the captured groups; \<open>FindStringSubmatch\<close> tries every
  start from the left, as the unanchored expression does, and returns the groups of
  the leftmost match (\<^verbatim>\<open>m[1:]\<close>), or \<open>None\<close> for \<^verbatim>\<open>m == nil\<close>.
\<close>

datatype rx_item = Lit string | HexN nat | CapHexN nat | EndOfText

definition isLowerHex :: "char \<Rightarrow> bool" where
  "isLowerHex c =
     (let k = of_char c :: nat in (48 \<le> k \<and> k \<le> 57) \<or> (97 \<le> k \<and> k \<le> 102))"

fun rx_here :: "rx_item list \<Rightarrow> string \<Rightarrow> string list option" where
  "rx_here [] s = Some []"
| "rx_here (Lit l # r) s =
     (if take (length l) s = l then rx_here r (drop (length l) s) else None)"
| "rx_here (HexN n # r) s =
     (if n \<le> length s \<and> list_all isLowerHex (take n s) then rx_here r (drop n s) else None)"
| "rx_here (CapHexN n # r) s =
     (if n \<le> length s \<and> list_all isLowerHex (take n s)
      then map_option (\<lambda>caps. take n s # caps) (rx_here r (drop n s)) else None)"
| "rx_here (EndOfText # r) s = (if s = [] then rx_here r s else None)"

fun FindStringSubmatch :: "rx_item list \<Rightarrow> string \<Rightarrow> string list option" where
  "FindStringSubmatch rx [] = rx_here rx []"
| "FindStringSubmatch rx (c # cs) =
     (case rx_here rx (c # cs) of
        Some caps \<Rightarrow> Some caps
      | None \<Rightarrow> FindStringSubmatch rx cs)"

text \<open>\<^verbatim>\<open>const hexPrefixPat = "/[0-9a-f]{2}/[0-9a-f]{2}/[0-9a-f]{2}/"\<close>\<close>

definition hexPrefixPat :: "rx_item list" where
  "hexPrefixPat = [Lit ''/'', HexN 2, Lit ''/'', HexN 2, Lit ''/'', HexN 2, Lit ''/'']"

section \<open>Archive paths\<close>

text \<open>
  Modelled from the spec: \<^verbatim>\<open>DirPrefix\<close>, \<^verbatim>\<open>CheckpointPrefix\<close>, \<^verbatim>\<open>HashPrefix\<close> and the
  methods \<^verbatim>\<open>Path\<close> of \<^verbatim>\<open>DirPrefix\<close> and \<^verbatim>\<open>String\<close> of \<^verbatim>\<open>Hash\<close> are outside archive.go.
  The spec: a prefix is the first three bytes of a checkpoint sequence or hash,
  rendered as three two-hex-digit directory components (\<^verbatim>\<open>aa/bb/cc/\<close>); a hash is
  rendered as 64 lowercase hex characters.
\<close>

type_synonym DirPrefix = "8 word \<times> 8 word \<times> 8 word"

definition CheckpointPrefix :: "32 word \<Rightarrow> DirPrefix" where
  "CheckpointPrefix seq = (ucast (drop_bit 24 seq), ucast (drop_bit 16 seq), ucast (drop_bit 8 seq))"

definition HashPrefix :: "Hash \<Rightarrow> DirPrefix" where
  "HashPrefix h = (ucast (drop_bit 248 h), ucast (drop_bit 240 h), ucast (drop_bit 232 h))"

definition DirPrefix_Path :: "DirPrefix \<Rightarrow> string" where
  "DirPrefix_Path d =
     (case d of (a, b, c) \<Rightarrow>
        fmt_x 2 2 (unat a) @ ''/'' @ fmt_x 2 2 (unat b) @ ''/'' @ fmt_x 2 2 (unat c) @ ''/'')"

definition Hash_String :: "Hash \<Rightarrow> string" where
  "Hash_String h = fmt_x 64 64 (unat h)"

text \<open>\<^verbatim>\<open>fmt.Sprintf("%s-%8.8x.%s", cat, chk, ext)\<close> inside \<^verbatim>\<open>CategoryCheckpointPath\<close>.\<close>

definition CategoryCheckpointPath :: "string \<Rightarrow> 32 word \<Rightarrow> string" where
  "CategoryCheckpointPath cat chk =
     (let ext = categoryExt cat;
          pre = DirPrefix_Path (CheckpointPrefix chk)
      in path_Join [cat, pre, cat @ ''-'' @ fmt_x 8 8 (unat chk) @ ''.'' @ ext])"

definition BucketPath :: "Hash \<Rightarrow> string" where
  "BucketPath bucket =
     (let pre = HashPrefix bucket
      in path_Join [''bucket'', DirPrefix_Path pre,
                    ''bucket-'' @ Hash_String bucket @ ''.xdr.gz''])"

text \<open>
  The expression that \<^verbatim>\<open>ListCategoryCheckpoints\<close> compiles:
  \<^verbatim>\<open>cat + hexPrefixPat + cat + "-([0-9a-f]{8})\\." + regexp.QuoteMeta(ext) + "$"\<close>.
  The category is spliced into the expression as it is; it stands for itself because
  no category name has a character that is special in a regular expression.
\<close>

definition categoryRx :: "string \<Rightarrow> rx_item list" where
  "categoryRx cat =
     (let ext = categoryExt cat
      in [Lit cat] @ hexPrefixPat @ [Lit cat, Lit ''-'', CapHexN 8, Lit ''.'', Lit ext, EndOfText])"

text \<open>
  What the goroutine of \<^verbatim>\<open>ListCategoryCheckpoints\<close> does with one listed path: the
  sequence number it sends on the channel, if any.
\<close>

definition parseCategoryCheckpoint :: "string \<Rightarrow> string \<Rightarrow> 32 word option" where
  "parseCategoryCheckpoint cat s =
     (case FindStringSubmatch (categoryRx cat) s of
        None \<Rightarrow> None
      | Some m \<Rightarrow>
          (case ParseUint_16_32 (hd m) of
             Inl e \<Rightarrow> None
           | Inr i \<Rightarrow> Some (of_nat i)))"

section \<open>Connect\<close>

text \<open>
  The fields of Go's \<^verbatim>\<open>url.URL\<close> that \<^verbatim>\<open>Connect\<close> reads, and \<^verbatim>\<open>ConnectOptions\<close>
  (a \<^verbatim>\<open>nil\<close> pointer to the options is \<open>None\<close>).
\<close>

record URL =
  Scheme :: string
  Host :: string
  Path :: string

record ConnectOptions =
  S3Region :: string

text \<open>
  \<^verbatim>\<open>Connect\<close>. The standard library's \<^verbatim>\<open>url.Parse\<close> and the three backend
  constructors, which are outside archive.go, are parameters. The result is the pair that the Go function returns:
  the archive and the error.
\<close>

text \<open>
  Modelled from the spec: \<^verbatim>\<open>MakeMockBackend\<close>, the in-memory backend for tests, is
  outside archive.go. It starts without files and no operation on it fails.
\<close>

definition MakeMockBackend :: ArchiveBackend where
  "MakeMockBackend =
     \<lparr>files = [], getErr = (\<lambda>p. None), putErr = (\<lambda>p. None), listErr = (\<lambda>p. None)\<rparr>"

definition emptyArchive :: Archive where
  "emptyArchive =
     \<lparr>checkpointFiles = fold (\<lambda>cat m. AList.update cat [] m) Categories [],
      allBuckets = [], referencedBuckets = [], missingBuckets = 0, backend = None\<rparr>"

definition Connect ::
  "(string \<Rightarrow> error + URL) \<Rightarrow>
   (string \<Rightarrow> string \<Rightarrow> ConnectOptions option \<Rightarrow> ArchiveBackend) \<Rightarrow>
   (string \<Rightarrow> ArchiveBackend) \<Rightarrow> (unit \<Rightarrow> ArchiveBackend) \<Rightarrow>
   string \<Rightarrow> ConnectOptions option \<Rightarrow> Archive \<times> error option" where
  "Connect url_Parse MakeS3Backend MakeFsBackend MakeMock u opts =
     (let arch = emptyArchive in
      case url_Parse u of
        Inl err \<Rightarrow> (arch, Some err)
      | Inr parsed \<Rightarrow>
          let pth = Path parsed in
          if Scheme parsed = ''s3'' then
            (let pth = (if length pth > 0 \<and> hd pth = CHR ''/'' then tl pth else pth)
             in (arch\<lparr>backend := Some (MakeS3Backend (Host parsed) pth opts)\<rparr>, None))
          else if Scheme parsed = ''file'' then
            (let pth = path_Join [Host parsed, pth]
             in (arch\<lparr>backend := Some (MakeFsBackend pth)\<rparr>, None))
          else if Scheme parsed = ''mock'' then
            (arch\<lparr>backend := Some (MakeMock ())\<rparr>, None)
          else
            (arch, Some (''unknown URL scheme: '' @ [CHR 0x27] @ Scheme parsed @ [CHR 0x27])))"


subsection \<open>The standard library's \<^verbatim>\<open>url.Parse\<close>\<close>

text \<open>
  Go's \<^verbatim>\<open>url.Parse\<close> (package \<^verbatim>\<open>net/url\<close>), for the fields that \<^verbatim>\<open>Connect\<close>
  reads. \<^verbatim>\<open>getScheme\<close> splits off the scheme, which is lower-cased; a query is cut off; the
  text between \<^verbatim>\<open>//\<close> and the next \<^verbatim>\<open>/\<close> is the authority; the rest is the path, which
  \<^verbatim>\<open>unescape\<close> decodes, failing on a \<^verbatim>\<open>%\<close> that two hexadecimal digits do not follow.
  \<^verbatim>\<open>parseAuthority\<close> is not modelled: the authority is taken as the host as it stands, which
  is Go's result for an authority of letters, digits, \<^verbatim>\<open>-\<close> and \<^verbatim>\<open>.\<close> only. Error
  messages are quoted as \<^verbatim>\<open>%q\<close> prints a text without quotes, backslashes and unprintable
  characters.
\<close>

definition isAlpha :: "char \<Rightarrow> bool" where
  "isAlpha c =
     (let k = of_char c :: nat in (97 \<le> k \<and> k \<le> 122) \<or> (65 \<le> k \<and> k \<le> 90))"

definition isDigit :: "char \<Rightarrow> bool" where
  "isDigit c = (let k = of_char c :: nat in 48 \<le> k \<and> k \<le> 57)"

fun getScheme_from :: "string \<Rightarrow> string \<Rightarrow> string \<Rightarrow> error + (string \<times> string)" where
  "getScheme_from rawURL seen [] = Inr ([], rawURL)"
| "getScheme_from rawURL seen (c # cs) =
     (if isAlpha c then getScheme_from rawURL (seen @ [c]) cs
      else if isDigit c \<or> c = CHR ''+'' \<or> c = CHR ''-'' \<or> c = CHR ''.'' then
        (if seen = [] then Inr ([], rawURL) else getScheme_from rawURL (seen @ [c]) cs)
      else if c = CHR '':'' then
        (if seen = [] then Inl ''missing protocol scheme'' else Inr (seen, cs))
      else Inr ([], rawURL))"

definition getScheme :: "string \<Rightarrow> error + (string \<times> string)" where
  "getScheme rawURL = getScheme_from rawURL [] rawURL"

definition toLower :: "char \<Rightarrow> char" where
  "toLower c = (let k = of_char c :: nat in if 65 \<le> k \<and> k \<le> 90 then char_of (k + 32) else c)"

definition ishex :: "char \<Rightarrow> bool" where
  "ishex c =
     (let k = of_char c :: nat
      in (48 \<le> k \<and> k \<le> 57) \<or> (97 \<le> k \<and> k \<le> 102) \<or> (65 \<le> k \<and> k \<le> 70))"

definition unhex :: "char \<Rightarrow> nat" where
  "unhex c =
     (let k = of_char c :: nat
      in if 48 \<le> k \<and> k \<le> 57 then k - 48
         else if 97 \<le> k \<and> k \<le> 102 then k - 97 + 10
         else if 65 \<le> k \<and> k \<le> 70 then k - 65 + 10
         else 0)"

definition quoted :: "string \<Rightarrow> string" where
  "quoted s = [CHR 0x22] @ s @ [CHR 0x22]"

definition EscapeError :: "string \<Rightarrow> error" where
  "EscapeError s = ''invalid URL escape '' @ quoted s"

definition url_Error :: "string \<Rightarrow> string \<Rightarrow> error \<Rightarrow> error" where
  "url_Error op u err = op @ '' '' @ quoted u @ '': '' @ err"

text \<open>
  \<^verbatim>\<open>unescape\<close> in the modes for paths and fragments, where \<^verbatim>\<open>+\<close> stands for itself.
\<close>

fun unescape :: "string \<Rightarrow> error + string" where
  "unescape [] = Inr []"
| "unescape (c # a # b # rest) =
     (if c = CHR ''%'' then
        (if ishex a \<and> ishex b then
           (case unescape rest of
              Inl err \<Rightarrow> Inl err
            | Inr r \<Rightarrow> Inr (char_of (unhex a * 16 + unhex b) # r))
         else Inl (EscapeError [c, a, b]))
      else
        (case unescape (a # b # rest) of Inl err \<Rightarrow> Inl err | Inr r \<Rightarrow> Inr (c # r)))"
| "unescape (c # cs) =
     (if c = CHR ''%'' then Inl (EscapeError (c # cs))
      else (case unescape cs of Inl err \<Rightarrow> Inl err | Inr r \<Rightarrow> Inr (c # r)))"

definition stringContainsCTLByte :: "string \<Rightarrow> bool" where
  "stringContainsCTLByte s = list_ex (\<lambda>c. (of_char c :: nat) < 32 \<or> (of_char c :: nat) = 127) s"

text \<open>
  \<^verbatim>\<open>parse(rawURL, false)\<close>: the URL without its fragment.
\<close>

definition url_parse :: "string \<Rightarrow> error + URL" where
  "url_parse rawURL =
     (if stringContainsCTLByte rawURL then Inl ''net/url: invalid control character in URL''
      else if rawURL = ''*'' then Inr \<lparr>Scheme = [], Host = [], Path = ''*''\<rparr>
      else
        case getScheme rawURL of
          Inl err \<Rightarrow> Inl err
        | Inr (scheme, rest) \<Rightarrow>
            let scheme = map toLower scheme;
                rest = takeWhile (\<lambda>c. c \<noteq> CHR ''?'') rest
            in
              if take 1 rest \<noteq> ''/'' \<and> scheme \<noteq> [] then
                Inr \<lparr>Scheme = scheme, Host = [], Path = []\<rparr>
              else if take 1 rest \<noteq> ''/''
                      \<and> CHR '':'' \<in> set (takeWhile (\<lambda>c. c \<noteq> CHR ''/'') rest) then
                Inl ''first path segment in URL cannot contain colon''
              else
                let authority =
                      (if (scheme \<noteq> [] \<or> take 3 rest \<noteq> ''///'') \<and> take 2 rest = ''//''
                       then Some (takeWhile (\<lambda>c. c \<noteq> CHR ''/'') (drop 2 rest)) else None);
                    rest =
                      (if authority \<noteq> None
                       then dropWhile (\<lambda>c. c \<noteq> CHR ''/'') (drop 2 rest) else rest)
                in
                  case unescape rest of
                    Inl err \<Rightarrow> Inl err
                  | Inr p \<Rightarrow>
                      Inr \<lparr>Scheme = scheme,
                           Host = (case authority of None \<Rightarrow> [] | Some h \<Rightarrow> h), Path = p\<rparr>)"

definition url_Parse :: "string \<Rightarrow> error + URL" where
  "url_Parse rawURL =
     (let u = takeWhile (\<lambda>c. c \<noteq> CHR ''#'') rawURL;
          frag = drop 1 (dropWhile (\<lambda>c. c \<noteq> CHR ''#'') rawURL)
      in
        case url_parse u of
          Inl err \<Rightarrow> Inl (url_Error ''parse'' u err)
        | Inr parsed \<Rightarrow>
            (case unescape frag of
               Inl err \<Rightarrow> Inl (url_Error ''parse'' rawURL err)
             | Inr f \<Rightarrow> Inr parsed))"
section \<open>Archives in a store, and calls on them\<close>

text \<open>
  What archive.go takes from the rest of the package, as parameters: the JSON
  decoding and encoding of a \<^verbatim>\<open>HistoryArchiveState\<close> (\<^verbatim>\<open>json.Decoder.Decode\<close> and
  \<^verbatim>\<open>json.MarshalIndent\<close>), its methods \<^verbatim>\<open>Range\<close> and \<^verbatim>\<open>Buckets\<close>, the methods
  \<^verbatim>\<open>Clamp\<close>, \<^verbatim>\<open>Checkpoints\<close> (the sequence the channel delivers) and \<^verbatim>\<open>String\<close> of
  \<^verbatim>\<open>Range\<close>, and the function \<^verbatim>\<open>RangePaths\<close>.
\<close>

record ('has, 'rng) deps =
  has_Decode :: "string \<Rightarrow> error + 'has"
  has_Encode :: "'has \<Rightarrow> error + string"
  has_Range :: "'has \<Rightarrow> 'rng"
  has_Buckets :: "'has \<Rightarrow> Hash list"
  rng_Clamp :: "'rng \<Rightarrow> 'rng \<Rightarrow> 'rng"
  rng_Checkpoints :: "'rng \<Rightarrow> 32 word list"
  rng_String :: "'rng \<Rightarrow> string"
  RangePaths :: "'rng \<Rightarrow> string list"

text \<open>
  A pointer \<^verbatim>\<open>*Archive\<close> is an address in a store of archives, so that a source and
  a destination that are the same archive share their state. The store also keeps a
  trace of what happened, most recent last: the operations that the backend of the
  archive at an address received, and three events of \<^verbatim>\<open>Mirror\<close>'s workers (worker
  \<open>i\<close> decoded the manifest of a checkpoint and found these buckets; worker \<open>i\<close>
  inserted a hash into \<^verbatim>\<open>bucketFetch\<close>; worker \<open>i\<close> called \<^verbatim>\<open>copyPath\<close> for the path of
  a bucket).
\<close>

datatype event =
    EvGet nat string
  | EvPut nat string
  | EvList nat string
  | EvFetched nat "32 word" "Hash list"
  | EvMark nat Hash
  | EvCopyBucket nat Hash

record world =
  archives :: "nat \<Rightarrow> Archive"
  trace :: "event list"

type_synonym 'a exec = "world \<Rightarrow> world \<times> 'a outcome"

definition ret :: "'a \<Rightarrow> 'a exec" where
  "ret x w = (w, Returns x)"

definition andThen :: "'a exec \<Rightarrow> ('a \<Rightarrow> 'b exec) \<Rightarrow> 'b exec" where
  "andThen m f w =
     (case m w of
        (w', Returns x) \<Rightarrow> f x w'
      | (w', Fatal e) \<Rightarrow> (w', Fatal e)
      | (w', Panics) \<Rightarrow> (w', Panics)
      | (w', Blocked) \<Rightarrow> (w', Blocked))"

definition modify_archive :: "nat \<Rightarrow> (Archive \<Rightarrow> Archive) \<Rightarrow> world \<Rightarrow> world" where
  "modify_archive a f w = w\<lparr>archives := (archives w)(a := f (archives w a))\<rparr>"

definition emit :: "event \<Rightarrow> world \<Rightarrow> world" where
  "emit ev w = w\<lparr>trace := trace w @ [ev]\<rparr>"

text \<open>
  \<^verbatim>\<open>a.backend.GetFile(path)\<close>, \<^verbatim>\<open>a.backend.PutFile(path, in)\<close> and
  \<^verbatim>\<open>a.backend.ListFiles(path)\<close>, on the backend modelled from the spec: a file that is
  not there is an error of \<^verbatim>\<open>GetFile\<close>, \<^verbatim>\<open>PutFile\<close> overwrites silently, and
  \<^verbatim>\<open>ListFiles\<close> delivers the paths that start with the prefix, in the order of the
  store. The reader that \<^verbatim>\<open>GetFile\<close> returns is the content of the file.
\<close>

definition GetFile :: "nat \<Rightarrow> string \<Rightarrow> (error + string) exec" where
  "GetFile a path w =
     (case backend (archives w a) of
        None \<Rightarrow> (w, Panics)
      | Some b \<Rightarrow>
          (emit (EvGet a path) w,
           Returns (case getErr b path of
                      Some e \<Rightarrow> Inl e
                    | None \<Rightarrow>
                        (case map_of (files b) path of
                           None \<Rightarrow> Inl ''file does not exist''
                         | Some content \<Rightarrow> Inr content))))"

definition PutFile :: "nat \<Rightarrow> string \<Rightarrow> string \<Rightarrow> (error option) exec" where
  "PutFile a path content w =
     (case backend (archives w a) of
        None \<Rightarrow> (w, Panics)
      | Some b \<Rightarrow>
          (case putErr b path of
             Some e \<Rightarrow> (emit (EvPut a path) w, Returns (Some e))
           | None \<Rightarrow>
               (emit (EvPut a path)
                  (modify_archive a
                     (\<lambda>arch. arch\<lparr>backend :=
                        Some (b\<lparr>files := AList.update path content (files b)\<rparr>)\<rparr>) w),
                Returns None)))"

definition ListFiles :: "nat \<Rightarrow> string \<Rightarrow> (error + string list) exec" where
  "ListFiles a path w =
     (case backend (archives w a) of
        None \<Rightarrow> (w, Panics)
      | Some b \<Rightarrow>
          (emit (EvList a path) w,
           Returns (case listErr b path of
                      Some e \<Rightarrow> Inl e
                    | None \<Rightarrow>
                        Inr (filter (\<lambda>k. take (length path) k = path) (map fst (files b))))))"

text \<open>\<^verbatim>\<open>GetPathHAS\<close>, \<^verbatim>\<open>PutPathHAS\<close> and the four methods built on them.\<close>

definition GetPathHAS :: "('has, 'rng) deps \<Rightarrow> nat \<Rightarrow> string \<Rightarrow> (error + 'has) exec" where
  "GetPathHAS D a path =
     andThen (GetFile a path)
       (\<lambda>r. case r of
               Inl err \<Rightarrow> ret (Inl err)
             | Inr rdr \<Rightarrow> ret (has_Decode D rdr))"

definition PutPathHAS :: "('has, 'rng) deps \<Rightarrow> nat \<Rightarrow> string \<Rightarrow> 'has \<Rightarrow> (error option) exec" where
  "PutPathHAS D a path has =
     (case has_Encode D has of
        Inl err \<Rightarrow> ret (Some err)
      | Inr buf \<Rightarrow> PutFile a path buf)"

definition GetRootHAS :: "('has, 'rng) deps \<Rightarrow> nat \<Rightarrow> (error + 'has) exec" where
  "GetRootHAS D a = GetPathHAS D a rootHASPath"

definition GetCheckpointHAS :: "('has, 'rng) deps \<Rightarrow> nat \<Rightarrow> 32 word \<Rightarrow> (error + 'has) exec" where
  "GetCheckpointHAS D a chk = GetPathHAS D a (CategoryCheckpointPath ''history'' chk)"

definition PutCheckpointHAS ::
  "('has, 'rng) deps \<Rightarrow> nat \<Rightarrow> 32 word \<Rightarrow> 'has \<Rightarrow> (error option) exec" where
  "PutCheckpointHAS D a chk has = PutPathHAS D a (CategoryCheckpointPath ''history'' chk) has"

definition PutRootHAS :: "('has, 'rng) deps \<Rightarrow> nat \<Rightarrow> 'has \<Rightarrow> (error option) exec" where
  "PutRootHAS D a has = PutPathHAS D a rootHASPath has"

text \<open>\<^verbatim>\<open>copyPath\<close>.\<close>

definition copyPath :: "nat \<Rightarrow> nat \<Rightarrow> string \<Rightarrow> (error option) exec" where
  "copyPath src dst pth =
     andThen (GetFile src pth)
       (\<lambda>r. case r of
               Inl err \<Rightarrow> ret (Some err)
             | Inr rdr \<Rightarrow> PutFile dst pth rdr)"

section \<open>ReportMissing\<close>

text \<open>
  The loop of \<^verbatim>\<open>ReportMissing\<close> over \<^verbatim>\<open>missingCheckpointFiles\<close>: the flag
  \<^verbatim>\<open>missingCheckpoints\<close> and the lines logged, for the entries of the map in the order
  in which the loop visits them.
\<close>

definition report_checkpoint_gaps ::
  "(string, 32 word list) gomap \<Rightarrow> bool \<times> string list" where
  "report_checkpoint_gaps missingCheckpointFiles =
     fold (\<lambda>(cat, missing) (missingCheckpoints, logged).
             if \<not> categoryRequired cat then (missingCheckpoints, logged)
             else
               let s = map (\<lambda>m. ''0x'' @ fmt_x 8 8 (unat m)) missing
               in if length missing \<noteq> 0
                  then (True, logged @ [''Missing '' @ cat @ '': '' @ strings_Join s '', ''])
                  else (missingCheckpoints, logged))
          missingCheckpointFiles (False, [])"

text \<open>
  \<^verbatim>\<open>ReportMissing\<close>. It returns the lines it logs together with its error.
\<close>

definition ReportMissing ::
  "('has, 'rng) deps \<Rightarrow> nat \<Rightarrow> 'rng \<Rightarrow> (string list \<times> error option) exec" where
  "ReportMissing D a rng =
     andThen (GetRootHAS D a)
       (\<lambda>r. case r of
               Inl e \<Rightarrow> ret ([], Some e)
             | Inr state \<Rightarrow>
                 (\<lambda>w.
                    let rng = rng_Clamp D rng (has_Range D state);
                        missingCheckpointFiles =
                          CheckCheckpointFilesMissing (archives w a) (rng_Checkpoints D rng);
                        missingBuckets = CheckBucketsMissing (archives w a);
                        (missingCheckpoints, gaps) = report_checkpoint_gaps missingCheckpointFiles
                    in ret
                         ([''Examining checkpoint files for gaps'',
                           ''Examining buckets referenced by checkpoints'']
                          @ gaps
                          @ (if \<not> missingCheckpoints
                             then [''No checkpoint files missing in range '' @ rng_String D rng]
                             else [])
                          @ map (\<lambda>(bucket, _). ''Missing bucket: '' @ Hash_String bucket)
                              missingBuckets
                          @ (if length missingBuckets = 0
                             then [''No missing buckets referenced in range '' @ rng_String D rng]
                             else []),
                          None) w))"

section \<open>Worker pools\<close>

text \<open>
  Every worker pool of archive.go starts \<^verbatim>\<open>concurrency\<close> goroutines that drain a
  request channel, and waits for them with a \<^verbatim>\<open>sync.WaitGroup\<close>. A pool is a machine:
  a worker is at one of the points of its loop where it touches shared state (a
  channel, the archive under its mutex, a backend), and one step runs one worker up
  to its next such point. A schedule is the list of the workers that step, in order;
  the theorems hold for every schedule. A step of a worker that waits on a channel
  (a full buffer, a \<^verbatim>\<open>nil\<close> channel) changes nothing. The request channel is the list
  of the requests not yet received; it is closed when the list is empty. The
  goroutines that log progress are left out: they only receive from the \<^verbatim>\<open>tick\<close>
  channel until it is closed, so that a send on it always completes.
\<close>

subsection \<open>ScanCheckpoints\<close>

text \<open>
  \<^verbatim>\<open>ListCategoryCheckpoints\<close>: \<open>Inl err\<close> is the pair \<^verbatim>\<open>(nil, err)\<close>, and \<open>Inr ns\<close> is a
  channel that delivers \<open>ns\<close> and is then closed, with a \<^verbatim>\<open>nil\<close> error.
\<close>

definition ListCategoryCheckpoints :: "nat \<Rightarrow> string \<Rightarrow> string \<Rightarrow> (error + 32 word list) exec" where
  "ListCategoryCheckpoints a cat pth =
     andThen (ListFiles a (path_Join [cat, pth]))
       (\<lambda>r. case r of
               Inl err \<Rightarrow> ret (Inl err)
             | Inr sch \<Rightarrow> ret (Inr (List.map_filter (parseCategoryCheckpoint cat) sch)))"

text \<open>
  The points of a worker of \<^verbatim>\<open>ScanCheckpoints\<close>: at \<^verbatim>\<open>r, ok := <-req\<close>; before the
  call of \<^verbatim>\<open>ListCategoryCheckpoints\<close>; at \<^verbatim>\<open>errs <- e\<close>; at \<^verbatim>\<open>for n := range ch\<close>, where
  \<open>None\<close> is the \<^verbatim>\<open>nil\<close> channel; after \<^verbatim>\<open>wg.Done()\<close>.
\<close>

datatype scan_worker =
    ScReceive
  | ScList string string
  | ScSendErr string "error + 32 word list"
  | ScRange string "32 word list option"
  | ScDone

record scan_state =
  sc_world :: world
  sc_req :: "(string \<times> string) list"
  sc_errs :: "error option list"
  sc_workers :: "scan_worker list"
  sc_panicked :: bool

fun scan_worker_step :: "nat \<Rightarrow> nat \<Rightarrow> scan_worker \<Rightarrow> scan_state \<Rightarrow> scan_state" where
  "scan_worker_step a i ScReceive st =
     (case sc_req st of
        [] \<Rightarrow> st\<lparr>sc_workers := (sc_workers st)[i := ScDone]\<rparr>
      | (cat, pth) # rest \<Rightarrow>
          st\<lparr>sc_req := rest, sc_workers := (sc_workers st)[i := ScList cat pth]\<rparr>)"
| "scan_worker_step a i (ScList cat pth) st =
     (case ListCategoryCheckpoints a cat pth (sc_world st) of
        (w, Returns r) \<Rightarrow>
          st\<lparr>sc_world := w, sc_workers := (sc_workers st)[i := ScSendErr cat r]\<rparr>
      | (w, _) \<Rightarrow> st\<lparr>sc_world := w, sc_panicked := True\<rparr>)"
| "scan_worker_step a i (ScSendErr cat r) st =
     (if length (sc_errs st) < 10000
      then st\<lparr>sc_errs := sc_errs st @ [case r of Inl e \<Rightarrow> Some e | Inr ns \<Rightarrow> None],
              sc_workers := (sc_workers st)
                 [i := ScRange cat (case r of Inl e \<Rightarrow> None | Inr ns \<Rightarrow> Some ns)]\<rparr>
      else st)"
| "scan_worker_step a i (ScRange cat None) st = st"
| "scan_worker_step a i (ScRange cat (Some [])) st =
     st\<lparr>sc_workers := (sc_workers st)[i := ScReceive]\<rparr>"
| "scan_worker_step a i (ScRange cat (Some (n # ns))) st =
     (case NoteCheckpointFile cat n True (archives (sc_world st) a) of
        Returns arch \<Rightarrow>
          st\<lparr>sc_world := modify_archive a (\<lambda>old. arch) (sc_world st),
             sc_workers := (sc_workers st)[i := ScRange cat (Some ns)]\<rparr>
      | _ \<Rightarrow> st\<lparr>sc_panicked := True\<rparr>)"
| "scan_worker_step a i ScDone st = st"

definition scan_step :: "nat \<Rightarrow> nat \<Rightarrow> scan_state \<Rightarrow> scan_state" where
  "scan_step a i st =
     (if sc_panicked st \<or> length (sc_workers st) \<le> i then st
      else scan_worker_step a i (sc_workers st ! i) st)"

text \<open>\<^verbatim>\<open>for e := range errs { if e != nil { return e } }; return nil\<close>\<close>

fun first_error :: "error option list \<Rightarrow> error option" where
  "first_error [] = None"
| "first_error (e # es) = (case e of Some x \<Rightarrow> Some x | None \<Rightarrow> first_error es)"

definition scan_requests :: "string list \<Rightarrow> (string \<times> string) list" where
  "scan_requests paths = concat (map (\<lambda>cat. map (\<lambda>pth. (cat, pth)) paths) Categories)"

definition ScanCheckpoints ::
  "('has, 'rng) deps \<Rightarrow> nat list \<Rightarrow> nat \<Rightarrow> 'rng \<Rightarrow> (error option) exec" where
  "ScanCheckpoints D sched a rng =
     andThen (GetRootHAS D a)
       (\<lambda>r. case r of
               Inl e \<Rightarrow> ret (Some e)
             | Inr state \<Rightarrow>
                 (\<lambda>w.
                    let rng = rng_Clamp D rng (has_Range D state);
                        st = fold (scan_step a) sched
                               \<lparr>sc_world = w,
                                sc_req = scan_requests (RangePaths D rng),
                                sc_errs = [],
                                sc_workers = replicate concurrency ScReceive,
                                sc_panicked = False\<rparr>
                    in if sc_panicked st then (sc_world st, Panics)
                       else if list_all (\<lambda>wk. wk = ScDone) (sc_workers st)
                            then (sc_world st, Returns (first_error (sc_errs st)))
                            else (sc_world st, Blocked)))"

subsection \<open>ScanBuckets\<close>

text \<open>
  The expression of \<^verbatim>\<open>ListAllBucketHashes\<close>:
  \<^verbatim>\<open>"bucket" + hexPrefixPat + "bucket-([0-9a-f]{64})\\.xdr\\.gz$"\<close>.
\<close>

definition bucketRx :: "rx_item list" where
  "bucketRx =
     [Lit ''bucket''] @ hexPrefixPat @ [Lit ''bucket-'', CapHexN 64, Lit ''.xdr.gz'', EndOfText]"

text \<open>
  Modelled from the spec: \<^verbatim>\<open>MustDecodeHash\<close> is outside archive.go. It reads the 64
  hexadecimal characters of a hash, and panics on anything else (\<open>None\<close>).
\<close>

definition DecodeHash :: "string \<Rightarrow> Hash option" where
  "DecodeHash s = (if length s = 64 then map_option of_nat (parse_hex 0 s) else None)"

fun decode_hashes :: "string list \<Rightarrow> Hash list option" where
  "decode_hashes [] = Some []"
| "decode_hashes (s # ss) =
     (case DecodeHash s of
        None \<Rightarrow> None
      | Some h \<Rightarrow> map_option (\<lambda>hs. h # hs) (decode_hashes ss))"

definition ListAllBucketHashes :: "nat \<Rightarrow> (error + Hash list) exec" where
  "ListAllBucketHashes a =
     andThen (ListFiles a ''bucket'')
       (\<lambda>r. case r of
               Inl err \<Rightarrow> ret (Inl err)
             | Inr sch \<Rightarrow>
                 (case decode_hashes
                         (List.map_filter
                            (\<lambda>s. map_option hd (FindStringSubmatch bucketRx s)) sch) of
                    None \<Rightarrow> (\<lambda>w. (w, Panics))
                  | Some hs \<Rightarrow> ret (Inr hs)))"

text \<open>
  The points of a worker of \<^verbatim>\<open>ScanBuckets\<close> that reads manifests: at
  \<^verbatim>\<open>ix, ok := <-req\<close>; before \<^verbatim>\<open>arch.GetCheckpointHAS(ix)\<close>; in the loop over
  \<^verbatim>\<open>has.Buckets()\<close>; after \<^verbatim>\<open>wg.Done()\<close>. The goroutine that notes the listed buckets
  steps under the index \<^verbatim>\<open>concurrency\<close>; \<open>sb_listed\<close> is what its channel still holds.
\<close>

datatype bucket_worker =
    SbReceive
  | SbGet "32 word"
  | SbNote "Hash list"
  | SbDone

record bscan_state =
  sb_world :: world
  sb_req :: "32 word list"
  sb_listed :: "Hash list"
  sb_lister_done :: bool
  sb_workers :: "bucket_worker list"
  sb_stopped :: "unit outcome option"

fun bucket_worker_step ::
  "('has, 'rng) deps \<Rightarrow> nat \<Rightarrow> nat \<Rightarrow> bucket_worker \<Rightarrow> bscan_state \<Rightarrow> bscan_state" where
  "bucket_worker_step D a i SbReceive st =
     (case sb_req st of
        [] \<Rightarrow> st\<lparr>sb_workers := (sb_workers st)[i := SbDone]\<rparr>
      | ix # rest \<Rightarrow> st\<lparr>sb_req := rest, sb_workers := (sb_workers st)[i := SbGet ix]\<rparr>)"
| "bucket_worker_step D a i (SbGet ix) st =
     (case GetCheckpointHAS D a ix (sb_world st) of
        (w, Returns (Inr has)) \<Rightarrow>
          st\<lparr>sb_world := w, sb_workers := (sb_workers st)[i := SbNote (has_Buckets D has)]\<rparr>
      | (w, Returns (Inl e)) \<Rightarrow> st\<lparr>sb_world := w, sb_stopped := Some (Fatal e)\<rparr>
      | (w, _) \<Rightarrow> st\<lparr>sb_world := w, sb_stopped := Some Panics\<rparr>)"
| "bucket_worker_step D a i (SbNote []) st =
     st\<lparr>sb_workers := (sb_workers st)[i := SbReceive]\<rparr>"
| "bucket_worker_step D a i (SbNote (bucket # rest)) st =
     st\<lparr>sb_world := modify_archive a (NoteReferencedBucket bucket) (sb_world st),
        sb_workers := (sb_workers st)[i := SbNote rest]\<rparr>"
| "bucket_worker_step D a i SbDone st = st"

definition bscan_step :: "('has, 'rng) deps \<Rightarrow> nat \<Rightarrow> nat \<Rightarrow> bscan_state \<Rightarrow> bscan_state" where
  "bscan_step D a i st =
     (if sb_stopped st \<noteq> None then st
      else if i < length (sb_workers st) then bucket_worker_step D a i (sb_workers st ! i) st
      else if i = length (sb_workers st) then
        (case sb_listed st of
           [] \<Rightarrow> st\<lparr>sb_lister_done := True\<rparr>
         | b # rest \<Rightarrow>
             st\<lparr>sb_world := modify_archive a (NoteExistingBucket b) (sb_world st),
                sb_listed := rest\<rparr>)
      else st)"

definition ScanBuckets :: "('has, 'rng) deps \<Rightarrow> nat list \<Rightarrow> nat \<Rightarrow> (error option) exec" where
  "ScanBuckets D sched a w =
     (let hists = (case map_of (checkpointFiles (archives w a)) ''history'' of
                     None \<Rightarrow> []
                   | Some tab \<Rightarrow> tab);
          seqs = map fst (filter (\<lambda>(k, present). present) hists)
      in andThen (ListAllBucketHashes a)
           (\<lambda>r. case r of
                   Inl e \<Rightarrow> ret (Some e)
                 | Inr listed \<Rightarrow>
                     (\<lambda>w.
                        let st = fold (bscan_step D a) sched
                                   \<lparr>sb_world = w,
                                    sb_req = seqs,
                                    sb_listed = listed,
                                    sb_lister_done = False,
                                    sb_workers = replicate concurrency SbReceive,
                                    sb_stopped = None\<rparr>
                        in case sb_stopped st of
                             Some out \<Rightarrow>
                               (sb_world st, case out of Fatal e \<Rightarrow> Fatal e | _ \<Rightarrow> Panics)
                           | None \<Rightarrow>
                               if list_all (\<lambda>wk. wk = SbDone) (sb_workers st)
                                  \<and> sb_lister_done st
                               then (sb_world st, Returns None)
                               else (sb_world st, Blocked))) w)"

text \<open>\<^verbatim>\<open>Scan\<close>.\<close>

definition Scan ::
  "('has, 'rng) deps \<Rightarrow> nat list \<Rightarrow> nat list \<Rightarrow> nat \<Rightarrow> 'rng \<Rightarrow> (error option) exec" where
  "Scan D sched1 sched2 a rng =
     andThen (ScanCheckpoints D sched1 a rng)
       (\<lambda>e. case e of
               Some err \<Rightarrow> ret (Some err)
             | None \<Rightarrow> ScanBuckets D sched2 a)"

subsection \<open>Mirror\<close>

text \<open>
  The points of a worker of \<^verbatim>\<open>Mirror\<close>: at \<^verbatim>\<open>ix, ok := <-checkpoints\<close>; before
  \<^verbatim>\<open>src.GetCheckpointHAS(ix)\<close>; at the head of the loop over \<^verbatim>\<open>has.Buckets()\<close>, with the
  buckets still to visit; between the unlock of \<^verbatim>\<open>bucketFetchMutex\<close> and the call of
  \<^verbatim>\<open>copyPath\<close>, when the worker itself inserted the bucket; before
  \<^verbatim>\<open>dst.PutCheckpointHAS(ix, has)\<close>; in the loop over the categories, with the
  categories still to copy; after \<^verbatim>\<open>wg.Done()\<close>. The test of \<^verbatim>\<open>bucketFetch\<close> and the
  insertion are one step, as they happen under the mutex.
\<close>

datatype 'has mirror_worker =
    MwReceive
  | MwGetHAS "32 word"
  | MwBuckets "32 word" 'has "Hash list"
  | MwCopyBucket "32 word" 'has Hash "Hash list"
  | MwPutHAS "32 word" 'has
  | MwCategories "32 word" "string list"
  | MwDone

record 'has mirror_state =
  m_world :: world
  m_checkpoints :: "32 word list"
  m_bucketFetch :: "(Hash, bool) gomap"
  m_workers :: "'has mirror_worker list"
  m_stopped :: "unit outcome option"

text \<open>A call whose error is not \<^verbatim>\<open>nil\<close> ends in \<^verbatim>\<open>log.Fatal(e)\<close>.\<close>

definition fatal_on_error ::
  "world \<times> (error option) outcome \<Rightarrow> 'has mirror_worker \<Rightarrow> nat \<Rightarrow>
   'has mirror_state \<Rightarrow> 'has mirror_state" where
  "fatal_on_error res next i st =
     (case res of
        (w, Returns None) \<Rightarrow> st\<lparr>m_world := w, m_workers := (m_workers st)[i := next]\<rparr>
      | (w, Returns (Some e)) \<Rightarrow> st\<lparr>m_world := w, m_stopped := Some (Fatal e)\<rparr>
      | (w, _) \<Rightarrow> st\<lparr>m_world := w, m_stopped := Some Panics\<rparr>)"

fun mirror_worker_step ::
  "('has, 'rng) deps \<Rightarrow> nat \<Rightarrow> nat \<Rightarrow> nat \<Rightarrow> 'has mirror_worker \<Rightarrow>
   'has mirror_state \<Rightarrow> 'has mirror_state" where
  "mirror_worker_step D src dst i MwReceive st =
     (case m_checkpoints st of
        [] \<Rightarrow> st\<lparr>m_workers := (m_workers st)[i := MwDone]\<rparr>
      | ix # rest \<Rightarrow>
          st\<lparr>m_checkpoints := rest, m_workers := (m_workers st)[i := MwGetHAS ix]\<rparr>)"
| "mirror_worker_step D src dst i (MwGetHAS ix) st =
     (case GetCheckpointHAS D src ix (m_world st) of
        (w, Returns (Inr has)) \<Rightarrow>
          st\<lparr>m_world := emit (EvFetched i ix (has_Buckets D has)) w,
             m_workers := (m_workers st)[i := MwBuckets ix has (has_Buckets D has)]\<rparr>
      | (w, Returns (Inl e)) \<Rightarrow> st\<lparr>m_world := w, m_stopped := Some (Fatal e)\<rparr>
      | (w, _) \<Rightarrow> st\<lparr>m_world := w, m_stopped := Some Panics\<rparr>)"
| "mirror_worker_step D src dst i (MwBuckets ix has []) st =
     st\<lparr>m_workers := (m_workers st)[i := MwPutHAS ix has]\<rparr>"
| "mirror_worker_step D src dst i (MwBuckets ix has (bucket # rest)) st =
     (let alreadyFetching = (map_of (m_bucketFetch st) bucket \<noteq> None)
      in if \<not> alreadyFetching
         then st\<lparr>m_world := emit (EvMark i bucket) (m_world st),
                 m_bucketFetch := AList.update bucket True (m_bucketFetch st),
                 m_workers := (m_workers st)[i := MwCopyBucket ix has bucket rest]\<rparr>
         else st\<lparr>m_workers := (m_workers st)[i := MwBuckets ix has rest]\<rparr>)"
| "mirror_worker_step D src dst i (MwCopyBucket ix has bucket rest) st =
     fatal_on_error
       (copyPath src dst (BucketPath bucket) (emit (EvCopyBucket i bucket) (m_world st)))
       (MwBuckets ix has rest) i st"
| "mirror_worker_step D src dst i (MwPutHAS ix has) st =
     fatal_on_error (PutCheckpointHAS D dst ix has (m_world st))
       (MwCategories ix Categories) i st"
| "mirror_worker_step D src dst i (MwCategories ix []) st =
     st\<lparr>m_workers := (m_workers st)[i := MwReceive]\<rparr>"
| "mirror_worker_step D src dst i (MwCategories ix (cat # rest)) st =
     fatal_on_error (copyPath src dst (CategoryCheckpointPath cat ix) (m_world st))
       (MwCategories ix rest) i st"
| "mirror_worker_step D src dst i MwDone st = st"

definition mirror_step ::
  "('has, 'rng) deps \<Rightarrow> nat \<Rightarrow> nat \<Rightarrow> nat \<Rightarrow> 'has mirror_state \<Rightarrow> 'has mirror_state" where
  "mirror_step D src dst i st =
     (if m_stopped st \<noteq> None \<or> length (m_workers st) \<le> i then st
      else mirror_worker_step D src dst i (m_workers st ! i) st)"

text \<open>
  The pool of \<^verbatim>\<open>Mirror\<close> up to \<^verbatim>\<open>wg.Wait()\<close>, and \<^verbatim>\<open>Mirror\<close>: the root manifest of
  the destination is written after \<^verbatim>\<open>wg.Wait()\<close> has returned.
\<close>

definition mirror_pool ::
  "('has, 'rng) deps \<Rightarrow> nat list \<Rightarrow> nat \<Rightarrow> nat \<Rightarrow> 32 word list \<Rightarrow> world \<Rightarrow>
   'has mirror_state" where
  "mirror_pool D sched src dst checkpoints w =
     fold (mirror_step D src dst) sched
       \<lparr>m_world = w,
        m_checkpoints = checkpoints,
        m_bucketFetch = [],
        m_workers = replicate concurrency MwReceive,
        m_stopped = None\<rparr>"

definition Mirror ::
  "('has, 'rng) deps \<Rightarrow> nat list \<Rightarrow> nat \<Rightarrow> nat \<Rightarrow> 'rng \<Rightarrow> (error option) exec" where
  "Mirror D sched src dst rng =
     andThen (GetRootHAS D src)
       (\<lambda>r. case r of
               Inl e \<Rightarrow> ret (Some e)
             | Inr rootHAS \<Rightarrow>
                 (\<lambda>w.
                    let rng = rng_Clamp D rng (has_Range D rootHAS);
                        st = mirror_pool D sched src dst (rng_Checkpoints D rng) w
                    in case m_stopped st of
                         Some out \<Rightarrow>
                           (m_world st, case out of Fatal e \<Rightarrow> Fatal e | _ \<Rightarrow> Panics)
                       | None \<Rightarrow>
                           if list_all (\<lambda>wk. wk = MwDone) (m_workers st)
                           then PutRootHAS D dst rootHAS (m_world st)
                           else (m_world st, Blocked)))"

section \<open>Repair\<close>

text \<open>
  The two copy loops of \<^verbatim>\<open>Repair\<close>, over the entries of the maps in the order in
  which the loops visit them; \<open>repairedHistory\<close> is the flag of the first one. A copy
  that fails ends in \<^verbatim>\<open>log.Fatal(e)\<close>.
\<close>

fun repair_category :: "nat \<Rightarrow> nat \<Rightarrow> string \<Rightarrow> 32 word list \<Rightarrow> bool \<Rightarrow> bool exec" where
  "repair_category src dst cat [] repairedHistory w = (w, Returns repairedHistory)"
| "repair_category src dst cat (chk # rest) repairedHistory w =
     (case copyPath src dst (CategoryCheckpointPath cat chk) w of
        (w', Returns None) \<Rightarrow>
          repair_category src dst cat rest
            (if cat = ''history'' then True else repairedHistory) w'
      | (w', Returns (Some e)) \<Rightarrow> (w', Fatal e)
      | (w', Fatal e) \<Rightarrow> (w', Fatal e)
      | (w', Panics) \<Rightarrow> (w', Panics)
      | (w', Blocked) \<Rightarrow> (w', Blocked))"

fun repair_checkpoints ::
  "nat \<Rightarrow> nat \<Rightarrow> (string, 32 word list) gomap \<Rightarrow> bool \<Rightarrow> bool exec" where
  "repair_checkpoints src dst [] repairedHistory w = (w, Returns repairedHistory)"
| "repair_checkpoints src dst ((cat, missing) # rest) repairedHistory w =
     (case repair_category src dst cat missing repairedHistory w of
        (w', Returns repairedHistory') \<Rightarrow> repair_checkpoints src dst rest repairedHistory' w'
      | (w', Fatal e) \<Rightarrow> (w', Fatal e)
      | (w', Panics) \<Rightarrow> (w', Panics)
      | (w', Blocked) \<Rightarrow> (w', Blocked))"

fun repair_buckets :: "nat \<Rightarrow> nat \<Rightarrow> (Hash, bool) gomap \<Rightarrow> unit exec" where
  "repair_buckets src dst [] w = (w, Returns ())"
| "repair_buckets src dst ((bkt, present) # rest) w =
     (case copyPath src dst (BucketPath bkt) w of
        (w', Returns None) \<Rightarrow> repair_buckets src dst rest w'
      | (w', Returns (Some e)) \<Rightarrow> (w', Fatal e)
      | (w', Fatal e) \<Rightarrow> (w', Fatal e)
      | (w', Panics) \<Rightarrow> (w', Panics)
      | (w', Blocked) \<Rightarrow> (w', Blocked))"

text \<open>
  \<^verbatim>\<open>Repair\<close>, with one schedule for each of the worker pools it may start: the scan
  of the checkpoint files, the second scan after a manifest was repaired, and the
  scan of the buckets.
\<close>

definition Repair ::
  "('has, 'rng) deps \<Rightarrow> nat list \<Rightarrow> nat list \<Rightarrow> nat list \<Rightarrow> nat \<Rightarrow> nat \<Rightarrow> 'rng \<Rightarrow>
   (error option) exec" where
  "Repair D sched1 sched2 sched3 src dst rng =
     andThen (GetRootHAS D dst)
       (\<lambda>r. case r of
          Inl e \<Rightarrow> ret (Some e)
        | Inr state \<Rightarrow>
            (let rng = rng_Clamp D rng (has_Range D state) in
             andThen (ScanCheckpoints D sched1 dst rng)
               (\<lambda>e. case e of
                  Some err \<Rightarrow> ret (Some err)
                | None \<Rightarrow>
                    andThen
                      (\<lambda>w. repair_checkpoints src dst
                              (CheckCheckpointFilesMissing (archives w dst)
                                 (rng_Checkpoints D rng)) False w)
                      (\<lambda>repairedHistory.
                         andThen
                           (if repairedHistory
                            then (\<lambda>w. ScanCheckpoints D sched2 dst rng
                                         (modify_archive dst ClearCachedInfo w))
                            else ret None)
                           (\<lambda>e. case e of
                              Some err \<Rightarrow> ret (Some err)
                            | None \<Rightarrow>
                                andThen (ScanBuckets D sched3 dst)
                                  (\<lambda>e. case e of
                                     Some err \<Rightarrow> ret (Some err)
                                   | None \<Rightarrow>
                                       andThen
                                         (\<lambda>w. repair_buckets src dst
                                                 (CheckBucketsMissing (archives w dst)) w)
                                         (\<lambda>u. ret None)))))))"

section \<open>An instance of the parameters, for the examples\<close>

text \<open>
  A manifest is a range and a list of buckets, a range is a pair of bounds, and three
  file contents decode to manifests: the root, and the manifests of the checkpoints
  63 and 127, which both name bucket 1. The range holds the checkpoints 63 and 127
  that lie between its bounds, all under the directory \<^verbatim>\<open>00/00/00\<close>.
\<close>

definition exampleDeps :: "((32 word \<times> 32 word) \<times> Hash list, 32 word \<times> 32 word) deps" where
  "exampleDeps =
     \<lparr>has_Decode = (\<lambda>s. if s = ''root'' then Inr ((63, 127), [])
                        else if s = ''has63'' then Inr ((63, 63), [1, 2])
                        else if s = ''has127'' then Inr ((127, 127), [1])
                        else Inl ''invalid character''),
      has_Encode = (\<lambda>h. if h = ((63, 127), []) then Inr ''root''
                        else if h = ((63, 63), [1, 2]) then Inr ''has63''
                        else if h = ((127, 127), [1]) then Inr ''has127''
                        else Inl ''unsupported value''),
      has_Range = fst,
      has_Buckets = snd,
      rng_Clamp = (\<lambda>r other. (max (fst r) (fst other), min (snd r) (snd other))),
      rng_Checkpoints = (\<lambda>r. filter (\<lambda>c. fst r \<le> c \<and> c \<le> snd r) [63, 127]),
      rng_String = (\<lambda>r. ''[range]''),
      RangePaths = (\<lambda>r. [''00/00/00''])\<rparr>"

text \<open>
  A store with one archive, at address 0, as \<^verbatim>\<open>Connect\<close> returns it for a mock URL,
  on a backend that holds the given files.
\<close>

definition storeOf :: "(string \<times> string) list \<Rightarrow> world" where
  "storeOf fs =
     \<lparr>archives = (\<lambda>a. emptyArchive\<lparr>backend := Some (MakeMockBackend\<lparr>files := fs\<rparr>)\<rparr>),
      trace = []\<rparr>"


definition exampleScanned :: world where
  "exampleScanned =
     modify_archive 0
       (\<lambda>arch. arch\<lparr>checkpointFiles :=
          [(''history'', [(63, True), (127, True)]),
           (''ledger'', [(63, True), (127, True)]),
           (''transactions'', [(63, True), (127, True)]),
           (''results'', [(63, True), (127, True)]),
           (''scp'', [])]\<rparr>)
       (storeOf [(''.well-known/stellar-history.json'', ''root'')])"

text \<open>
  A store for \<^verbatim>\<open>Mirror\<close> and \<^verbatim>\<open>Repair\<close>: the archive at address 0 holds the root
  manifest, the two checkpoints with their five category files, and the buckets 1
  and 2; the archive at address 1 is empty.
\<close>

definition exampleFiles :: "(string \<times> string) list" where
  "exampleFiles =
     [(rootHASPath, ''root''),
      (CategoryCheckpointPath ''history'' 63, ''has63''),
      (CategoryCheckpointPath ''ledger'' 63, ''l63''),
      (CategoryCheckpointPath ''transactions'' 63, ''t63''),
      (CategoryCheckpointPath ''results'' 63, ''r63''),
      (CategoryCheckpointPath ''scp'' 63, ''s63''),
      (CategoryCheckpointPath ''history'' 127, ''has127''),
      (CategoryCheckpointPath ''ledger'' 127, ''l127''),
      (CategoryCheckpointPath ''transactions'' 127, ''t127''),
      (CategoryCheckpointPath ''results'' 127, ''r127''),
      (CategoryCheckpointPath ''scp'' 127, ''s127''),
      (BucketPath 1, ''b1''),
      (BucketPath 2, ''b2'')]"


text \<open>
  The store of the last example, on a backend whose listing of the directory of the
  \<^verbatim>\<open>scp\<close> files fails.
\<close>

definition exampleListFails :: world where
  "exampleListFails =
     \<lparr>archives = (\<lambda>a. emptyArchive\<lparr>backend :=
                      Some (MakeMockBackend
                              \<lparr>files := exampleFiles,
                               listErr := (\<lambda>p. if p = ''scp/00/00/00''
                                                then Some ''connection reset'' else None)\<rparr>)\<rparr>),
      trace = []\<rparr>"


section \<open>Invariants of the worker pools\<close>

text \<open>
  A worker of \<^verbatim>\<open>ScanCheckpoints\<close> that holds the request \<open>(cat, pth)\<close> and has not gone
  past the loop over the channel of a failed listing.
\<close>

definition scan_held :: "string \<Rightarrow> string \<Rightarrow> scan_worker \<Rightarrow> bool" where
  "scan_held cat pth wk =
     (wk = ScList cat pth \<or> (\<exists>e. wk = ScSendErr cat (Inl e)) \<or> wk = ScRange cat None)"

text \<open>
  While the listing of \<open>(cat, pth)\<close> fails on the backend of the archive: the request
  is still in the channel or a worker holds it, and no worker is done before the
  channel is empty.
\<close>

definition scan_inv :: "nat \<Rightarrow> string \<Rightarrow> string \<Rightarrow> scan_state \<Rightarrow> bool" where
  "scan_inv a cat pth st =
     ((\<exists>b e. backend (archives (sc_world st) a) = Some b
              \<and> listErr b (path_Join [cat, pth]) = Some e)
      \<and> ((cat, pth) \<in> set (sc_req st)
           \<or> (\<exists>j < length (sc_workers st). scan_held cat pth (sc_workers st ! j)))
      \<and> (ScDone \<in> set (sc_workers st) \<longrightarrow> sc_req st = []))"

text \<open>
  Every error in the channel \<^verbatim>\<open>errs\<close> was sent by a worker that has since been at
  the loop over a \<^verbatim>\<open>nil\<close> channel.
\<close>

definition errs_inv :: "scan_state \<Rightarrow> bool" where
  "errs_inv st =
     (first_error (sc_errs st) \<noteq> None \<longrightarrow>
        (\<exists>j < length (sc_workers st). \<exists>cat. sc_workers st ! j = ScRange cat None))"

text \<open>
  The events that a call added to the trace, and the events of \<^verbatim>\<open>Mirror\<close>'s workers
  among them: who inserted which hash into \<^verbatim>\<open>bucketFetch\<close>, and who called
  \<^verbatim>\<open>copyPath\<close> for which bucket.
\<close>

definition new_events :: "world \<Rightarrow> world \<Rightarrow> event list" where
  "new_events w w' = drop (length (trace w)) (trace w')"

definition bucket_marks :: "event list \<Rightarrow> (nat \<times> Hash) list" where
  "bucket_marks evs =
     List.map_filter (\<lambda>ev. case ev of EvMark i b \<Rightarrow> Some (i, b) | _ \<Rightarrow> None) evs"

definition bucket_copies :: "event list \<Rightarrow> (nat \<times> Hash) list" where
  "bucket_copies evs =
     List.map_filter (\<lambda>ev. case ev of EvCopyBucket i b \<Rightarrow> Some (i, b) | _ \<Rightarrow> None) evs"

text \<open>
  Each hash was inserted once, the keys of \<^verbatim>\<open>bucketFetch\<close> include the hashes
  inserted, \<^verbatim>\<open>copyPath\<close> was called once for each bucket it was called for, and by
  the worker that inserted it; a worker that is about to call \<^verbatim>\<open>copyPath\<close> inserted
  the hash and has not called it yet. The events are those after the first \<open>n\<close> of
  the trace.
\<close>

definition copy_inv :: "nat \<Rightarrow> 'has mirror_state \<Rightarrow> bool" where
  "copy_inv n st =
     (n \<le> length (trace (m_world st))
      \<and> distinct (map snd (bucket_marks (drop n (trace (m_world st)))))
      \<and> snd ` set (bucket_marks (drop n (trace (m_world st))))
            \<subseteq> dom (map_of (m_bucketFetch st))
      \<and> distinct (bucket_copies (drop n (trace (m_world st))))
      \<and> set (bucket_copies (drop n (trace (m_world st))))
            \<subseteq> set (bucket_marks (drop n (trace (m_world st))))
      \<and> (m_stopped st = None \<longrightarrow>
           (\<forall>i < length (m_workers st). \<forall>ix has b rest.
              m_workers st ! i = MwCopyBucket ix has b rest \<longrightarrow>
                (i, b) \<in> set (bucket_marks (drop n (trace (m_world st))))
                \<and> (i, b) \<notin> set (bucket_copies (drop n (trace (m_world st)))))))"

text \<open>The operations on backends among the events.\<close>

definition backend_event :: "event \<Rightarrow> bool" where
  "backend_event ev =
     (case ev of EvGet a p \<Rightarrow> True | EvPut a p \<Rightarrow> True | EvList a p \<Rightarrow> True | _ \<Rightarrow> False)"

text \<open>
  What one step of \<^verbatim>\<open>Mirror\<close>'s pool did: the events it added, and the shared state
  after it.
\<close>

definition effect ::
  "'has mirror_state \<Rightarrow> 'has mirror_state \<Rightarrow> event list \<Rightarrow> (Hash, bool) gomap \<Rightarrow>
   'has mirror_worker list \<Rightarrow> 32 word list \<Rightarrow> bool \<Rightarrow> bool" where
  "effect st st' evs bf wks cps stopped =
     (trace (m_world st') = trace (m_world st) @ evs
      \<and> m_bucketFetch st' = bf \<and> m_workers st' = wks \<and> m_checkpoints st' = cps
      \<and> (m_stopped st' \<noteq> None) = stopped)"

text \<open>
  The paths that the workers of \<^verbatim>\<open>Mirror\<close> and the loops of \<^verbatim>\<open>Repair\<close> write: the
  path of a bucket, or the path of a checkpoint file of one of the categories.
\<close>

definition worker_path :: "string \<Rightarrow> bool" where
  "worker_path p =
     ((\<exists>b. p = BucketPath b)
      \<or> (\<exists>cat ix. cat \<in> set Categories \<and> p = CategoryCheckpointPath cat ix))"

definition puts_inv :: "nat \<Rightarrow> nat \<Rightarrow> 'has mirror_state \<Rightarrow> bool" where
  "puts_inv dst n st =
     ((\<forall>a p. EvPut a p \<in> set (drop n (trace (m_world st))) \<longrightarrow> a = dst \<and> worker_path p)
      \<and> (\<forall>i < length (m_workers st). \<forall>ix cats.
            m_workers st ! i = MwCategories ix cats \<longrightarrow> set cats \<subseteq> set Categories))"

text \<open>
  The checkpoint a worker of \<^verbatim>\<open>Mirror\<close> is working on, and what has been done for it
  when the worker is at a given point: its manifest was decoded, its buckets before
  the current one are in \<^verbatim>\<open>bucketFetch\<close>, the files of the categories before the
  current one were written.
\<close>

fun current :: "'has mirror_worker \<Rightarrow> 32 word option" where
  "current (MwGetHAS ix) = Some ix"
| "current (MwBuckets ix has rest) = Some ix"
| "current (MwCopyBucket ix has b rest) = Some ix"
| "current (MwPutHAS ix has) = Some ix"
| "current (MwCategories ix cats) = Some ix"
| "current MwReceive = None"
| "current MwDone = None"

definition fetched_all :: "event list \<Rightarrow> (Hash, bool) gomap \<Rightarrow> 32 word \<Rightarrow> bool" where
  "fetched_all T bf ix =
     (\<exists>i bs. EvFetched i ix bs \<in> set T \<and> (\<forall>b \<in> set bs. map_of bf b \<noteq> None))"

fun stage_inv ::
  "('has, 'rng) deps \<Rightarrow> nat \<Rightarrow> event list \<Rightarrow> (Hash, bool) gomap \<Rightarrow> 'has mirror_worker \<Rightarrow> bool"
  where
  "stage_inv D dst T bf (MwBuckets ix has rest) =
     ((\<exists>i. EvFetched i ix (has_Buckets D has) \<in> set T)
      \<and> (\<forall>b \<in> set (has_Buckets D has). b \<in> set rest \<or> map_of bf b \<noteq> None))"
| "stage_inv D dst T bf (MwCopyBucket ix has b rest) =
     ((\<exists>i. EvFetched i ix (has_Buckets D has) \<in> set T)
      \<and> (\<forall>b \<in> set (has_Buckets D has). b \<in> set rest \<or> map_of bf b \<noteq> None))"
| "stage_inv D dst T bf (MwPutHAS ix has) =
     ((\<exists>i. EvFetched i ix (has_Buckets D has) \<in> set T)
      \<and> (\<forall>b \<in> set (has_Buckets D has). map_of bf b \<noteq> None))"
| "stage_inv D dst T bf (MwCategories ix cats) =
     (fetched_all T bf ix
      \<and> (\<forall>cat \<in> set Categories.
            cat \<in> set cats \<or> EvPut dst (CategoryCheckpointPath cat ix) \<in> set T))"
| "stage_inv D dst T bf (MwGetHAS ix) = True"
| "stage_inv D dst T bf MwReceive = True"
| "stage_inv D dst T bf MwDone = True"

definition finished :: "nat \<Rightarrow> event list \<Rightarrow> (Hash, bool) gomap \<Rightarrow> 32 word \<Rightarrow> bool" where
  "finished dst T bf chk =
     (fetched_all T bf chk
      \<and> (\<forall>cat \<in> set Categories. EvPut dst (CategoryCheckpointPath cat chk) \<in> set T))"

definition stages_ok ::
  "('has, 'rng) deps \<Rightarrow> nat \<Rightarrow> event list \<Rightarrow> (Hash, bool) gomap \<Rightarrow>
   'has mirror_worker list \<Rightarrow> bool" where
  "stages_ok D dst T bf W = (\<forall>i < length W. stage_inv D dst T bf (W ! i))"

definition covered ::
  "nat \<Rightarrow> event list \<Rightarrow> (Hash, bool) gomap \<Rightarrow> 'has mirror_worker list \<Rightarrow> 32 word list \<Rightarrow>
   32 word list \<Rightarrow> bool" where
  "covered dst T bf W cps Q =
     (\<forall>chk \<in> set Q. chk \<in> set cps \<or> (\<exists>i < length W. current (W ! i) = Some chk)
                     \<or> finished dst T bf chk)"

definition buckets_ok ::
  "nat \<Rightarrow> event list \<Rightarrow> (Hash, bool) gomap \<Rightarrow> 'has mirror_worker list \<Rightarrow> bool" where
  "buckets_ok dst T bf W =
     (\<forall>b. map_of bf b \<noteq> None \<longrightarrow>
        (\<exists>j. EvCopyBucket j b \<in> set T \<and> EvPut dst (BucketPath b) \<in> set T)
        \<or> (\<exists>i < length W. \<exists>ix has rest. W ! i = MwCopyBucket ix has b rest))"

definition done_ok :: "'has mirror_worker list \<Rightarrow> 32 word list \<Rightarrow> bool" where
  "done_ok W cps = (MwDone \<in> set W \<longrightarrow> cps = [])"

text \<open>
  While the pool runs: every checkpoint of the range is still in the channel, or a
  worker is working on it, or all of it was copied; and every bucket in
  \<^verbatim>\<open>bucketFetch\<close> was copied, or the worker that inserted it is about to copy it.
\<close>

definition progress_inv ::
  "('has, 'rng) deps \<Rightarrow> nat \<Rightarrow> nat \<Rightarrow> 32 word list \<Rightarrow> 'has mirror_state \<Rightarrow> bool" where
  "progress_inv D dst n Q st =
     (n \<le> length (trace (m_world st))
      \<and> (m_stopped st = None \<longrightarrow>
           stages_ok D dst (drop n (trace (m_world st))) (m_bucketFetch st) (m_workers st)
           \<and> covered dst (drop n (trace (m_world st))) (m_bucketFetch st) (m_workers st)
               (m_checkpoints st) Q
           \<and> buckets_ok dst (drop n (trace (m_world st))) (m_bucketFetch st) (m_workers st)
           \<and> done_ok (m_workers st) (m_checkpoints st)))"



text \<open>
  The writes among the events, and the events in which every write is at the end of
  a \<^verbatim>\<open>copyPath\<close> from \<open>src\<close> to \<open>dst\<close>: it goes to the archive \<open>dst\<close>, and the event
  before it is the read of the same path from the archive \<open>src\<close>; \<open>prev\<close> is the
  event before the first one.
\<close>

definition puts_of :: "event list \<Rightarrow> (nat \<times> string) list" where
  "puts_of evs =
     List.map_filter (\<lambda>ev. case ev of EvPut a p \<Rightarrow> Some (a, p) | _ \<Rightarrow> None) evs"

fun copies_only :: "nat \<Rightarrow> nat \<Rightarrow> event option \<Rightarrow> event list \<Rightarrow> bool" where
  "copies_only src dst prev [] = True"
| "copies_only src dst prev (ev # evs) =
     ((case ev of EvPut a p \<Rightarrow> a = dst \<and> prev = Some (EvGet src p) | _ \<Rightarrow> True)
      \<and> copies_only src dst (Some ev) evs)"

text \<open>A call that writes nothing: the trace grows by events that are not writes.\<close>

definition quietly :: "world \<Rightarrow> world \<Rightarrow> bool" where
  "quietly w w' = (\<exists>evs. trace w' = trace w @ evs \<and> puts_of evs = [])"

text \<open>
  The map \<^verbatim>\<open>missingCheckpointFiles\<close> of a run of \<^verbatim>\<open>Repair\<close>, which it computes when
  its first scan has returned \<^verbatim>\<open>nil\<close> (it is empty for a run that returns before),
  the paths of the files that such a map names, and the paths of the buckets that
  \<^verbatim>\<open>CheckBucketsMissing\<close> reports for an archive.
\<close>

definition Repair_missingCheckpointFiles ::
  "('has, 'rng) deps \<Rightarrow> nat list \<Rightarrow> nat \<Rightarrow> 'rng \<Rightarrow> world \<Rightarrow> (string, 32 word list) gomap" where
  "Repair_missingCheckpointFiles D sched1 dst rng w =
     (case GetRootHAS D dst w of
        (w1, Returns (Inr state)) \<Rightarrow>
          (let rng = rng_Clamp D rng (has_Range D state)
           in case ScanCheckpoints D sched1 dst rng w1 of
                (w2, Returns None) \<Rightarrow>
                  CheckCheckpointFilesMissing (archives w2 dst) (rng_Checkpoints D rng)
              | _ \<Rightarrow> [])
      | _ \<Rightarrow> [])"

definition missing_file_paths :: "(string, 32 word list) gomap \<Rightarrow> string set" where
  "missing_file_paths missing =
     (\<Union>(cat, chks) \<in> set missing. CategoryCheckpointPath cat ` set chks)"

definition missing_bucket_paths :: "Archive \<Rightarrow> string set" where
  "missing_bucket_paths arch = BucketPath ` fst ` set (CheckBucketsMissing arch)"
section \<open>CheckBucketsMissing\<close>

lemma dom_CheckBucketsMissing_fold:
  "dom (map_of (fold (\<lambda>(k, _) missing.
             if map_of ab k = None then AList.update k True missing else missing) rb acc))
   = dom (map_of acc) \<union> (fst ` set rb - dom (map_of ab))"
proof (induction rb arbitrary: acc)
  case Nil
  show ?case by simp
next
  case (Cons kv rb)
  obtain k v where kv: "kv = (k, v)" by (cases kv)
  show ?case
    unfolding kv using Cons.IH by (auto simp: update_conv' dom_def)
qed

text \<open>
  C1. For every archive state, the keys of the map that \<^verbatim>\<open>CheckBucketsMissing\<close>
  returns are exactly the keys of \<^verbatim>\<open>referencedBuckets\<close> that are not keys of
  \<^verbatim>\<open>allBuckets\<close>.
\<close>

theorem CheckBucketsMissing_is_difference:
  "dom (map_of (CheckBucketsMissing arch))
   = dom (map_of (referencedBuckets arch)) - dom (map_of (allBuckets arch))"
  unfolding CheckBucketsMissing_def dom_CheckBucketsMissing_fold
  by (simp add: dom_map_of_conv_image_fst)

section \<open>CheckCheckpointFilesMissing\<close>

lemma inner_fold:
  "map_of missing cat = Some acc \<Longrightarrow>
   fold (\<lambda>ix missing.
           if \<not> checkpointFile_ok arch cat ix
           then AList.update cat (the (map_of missing cat) @ [ix]) missing
           else missing) chks missing
   = AList.update cat (acc @ filter (\<lambda>ix. \<not> checkpointFile_ok arch cat ix) chks) missing"
proof (induction chks arbitrary: missing acc)
  case Nil
  then show ?case by (simp add: update_triv)
next
  case (Cons ix chks)
  show ?case
  proof (cases "checkpointFile_ok arch cat ix")
    case True
    then show ?thesis using Cons.IH[OF Cons.prems] by simp
  next
    case False
    have "map_of (AList.update cat (acc @ [ix]) missing) cat = Some (acc @ [ix])"
      by (simp add: update_conv')
    from Cons.IH[OF this] False Cons.prems show ?thesis by simp
  qed
qed

lemma CheckCheckpointFilesMissing_eq:
  "CheckCheckpointFilesMissing arch chks
   = map (\<lambda>cat. (cat, filter (\<lambda>ix. \<not> checkpointFile_ok arch cat ix) chks)) Categories"
  unfolding CheckCheckpointFilesMissing_def Categories_def
  by (simp add: inner_fold update_conv')

lemma CheckCheckpointFilesMissing_lookup:
  "map_of (CheckCheckpointFilesMissing arch chks) cat =
     (if cat \<in> set Categories
      then Some (filter (\<lambda>ix. \<not> checkpointFile_ok arch cat ix) chks) else None)"
  by (simp add: CheckCheckpointFilesMissing_eq map_of_map_restrict restrict_map_def)

lemma checkpointFile_ok_Note:
  assumes "NoteCheckpointFile cat seq present arch = Returns arch'"
  shows "checkpointFile_ok arch' c ix = (checkpointFile_ok arch c ix \<or> (c = cat \<and> ix = seq))"
  using assms
  by (auto simp: NoteCheckpointFile_def checkpointFile_ok_def update_conv'
      split: option.splits if_splits)

lemma checkpointFile_ok_NoteExistingBucket:
  "checkpointFile_ok (NoteExistingBucket b arch) c ix = checkpointFile_ok arch c ix"
  by (simp add: NoteExistingBucket_def checkpointFile_ok_def)

lemma checkpointFile_ok_NoteReferencedBucket:
  "checkpointFile_ok (NoteReferencedBucket b arch) c ix = checkpointFile_ok arch c ix"
  by (simp add: NoteReferencedBucket_def checkpointFile_ok_def)

text \<open>
  C10. \<^verbatim>\<open>CheckCheckpointFilesMissing\<close> tests the presence of the key, not the stored
  boolean: after \<^verbatim>\<open>NoteCheckpointFile(cat, seq, false)\<close> the sequence number is not
  listed as missing for the category, and the whole result is the one obtained after
  \<^verbatim>\<open>NoteCheckpointFile(cat, seq, true)\<close>.
\<close>

theorem explicit_false_is_not_missing:
  assumes "cat \<in> set Categories"
    and "NoteCheckpointFile cat seq False arch = Returns arch'"
  shows "(\<exists>missing. map_of (CheckCheckpointFilesMissing arch' chks) cat = Some missing
            \<and> seq \<notin> set missing)
       \<and> (\<exists>arch''. NoteCheckpointFile cat seq True arch = Returns arch''
            \<and> CheckCheckpointFilesMissing arch'' chks = CheckCheckpointFilesMissing arch' chks)"
proof
  show "\<exists>missing. map_of (CheckCheckpointFilesMissing arch' chks) cat = Some missing
            \<and> seq \<notin> set missing"
    using assms(1) by (simp add: CheckCheckpointFilesMissing_lookup checkpointFile_ok_Note[OF assms(2)])
next
  from assms(2) obtain arch'' where t: "NoteCheckpointFile cat seq True arch = Returns arch''"
    by (auto simp: NoteCheckpointFile_def split: option.splits)
  have "CheckCheckpointFilesMissing arch'' chks = CheckCheckpointFilesMissing arch' chks"
    by (simp add: CheckCheckpointFilesMissing_eq checkpointFile_ok_Note[OF assms(2)]
        checkpointFile_ok_Note[OF t])
  with t show "\<exists>arch''. NoteCheckpointFile cat seq True arch = Returns arch''
            \<and> CheckCheckpointFilesMissing arch'' chks = CheckCheckpointFilesMissing arch' chks"
    by blast
qed

lemma emptyArchive_checkpointFiles:
  "checkpointFiles emptyArchive =
     [(''history'', []), (''ledger'', []), (''transactions'', []), (''results'', []), (''scp'', [])]"
  by (simp add: emptyArchive_def Categories_def)

lemma Note_history_63:
  "NoteCheckpointFile ''history'' 63 False emptyArchive =
     Returns (emptyArchive\<lparr>checkpointFiles :=
       [(''history'', [(63, False)]), (''ledger'', []), (''transactions'', []),
        (''results'', []), (''scp'', [])]\<rparr>)"
  by (simp add: NoteCheckpointFile_def emptyArchive_checkpointFiles)

theorem explicit_false_is_not_missing_witness:
  "''history'' \<in> set Categories
   \<and> NoteCheckpointFile ''history'' 63 False emptyArchive =
       Returns (emptyArchive\<lparr>checkpointFiles :=
         [(''history'', [(63, False)]), (''ledger'', []), (''transactions'', []),
          (''results'', []), (''scp'', [])]\<rparr>)
   \<and> (\<exists>missing. map_of (CheckCheckpointFilesMissing
          (emptyArchive\<lparr>checkpointFiles :=
             [(''history'', [(63, False)]), (''ledger'', []), (''transactions'', []),
              (''results'', []), (''scp'', [])]\<rparr>) [63, 127]) ''history'' = Some missing
          \<and> 63 \<notin> set missing)"
proof -
  have h: "''history'' \<in> set Categories" by (simp add: Categories_def)
  from explicit_false_is_not_missing[OF h Note_history_63, of "[63, 127]"] h Note_history_63
  show ?thesis by blast
qed

lemma missing_after_false_example:
  "CheckCheckpointFilesMissing
     (emptyArchive\<lparr>checkpointFiles :=
        [(''history'', [(63, False)]), (''ledger'', []), (''transactions'', []),
         (''results'', []), (''scp'', [])]\<rparr>) [63, 127]
   = [(''history'', [127]), (''ledger'', [63, 127]), (''transactions'', [63, 127]),
      (''results'', [63, 127]), (''scp'', [63, 127])]"
  by (simp add: CheckCheckpointFilesMissing_eq Categories_def checkpointFile_ok_def)

section \<open>Hexadecimal numerals\<close>


lemma hexDigit_cases:
  "d < 16 \<Longrightarrow> isLowerHex (hexDigit d) \<and> hexVal (hexDigit d) = Some d"
proof -
  assume "d < 16"
  then have "d = 0 \<or> d = 1 \<or> d = 2 \<or> d = 3 \<or> d = 4 \<or> d = 5 \<or> d = 6 \<or> d = 7
      \<or> d = 8 \<or> d = 9 \<or> d = 10 \<or> d = 11 \<or> d = 12 \<or> d = 13 \<or> d = 14 \<or> d = 15"
    by arith
  then show ?thesis
    by (elim disjE) (simp_all add: hexDigit_def isLowerHex_def hexVal_def)
qed

lemma fmt_hex_lower: "list_all isLowerHex (fmt_hex n)"
proof (induction n rule: fmt_hex.induct)
  case (1 n)
  show ?case
  proof (cases "n < 16")
    case True
    then show ?thesis by (subst fmt_hex.simps) (simp add: hexDigit_cases)
  next
    case False
    then show ?thesis using 1 by (subst fmt_hex.simps) (simp add: hexDigit_cases)
  qed
qed

lemma length_fmt_hex: "n < 16 ^ k \<Longrightarrow> 0 < k \<Longrightarrow> length (fmt_hex n) \<le> k"
proof (induction n arbitrary: k rule: fmt_hex.induct)
  case (1 n)
  show ?case
  proof (cases "n < 16")
    case True
    then show ?thesis using 1(3) by (subst fmt_hex.simps) simp
  next
    case False
    obtain j where kj: "k = Suc j" using 1(3) by (cases k) auto
    have "0 < j"
    proof (rule ccontr)
      assume "\<not> 0 < j"
      then show False using 1(2) False kj by simp
    qed
    with kj have j: "k = Suc j" "0 < j" by auto
    have "n div 16 < 16 ^ j" using 1(2) j by (simp add: less_mult_imp_div_less)
    from 1(1)[OF False this j(2)] False j show ?thesis
      by (subst fmt_hex.simps) simp
  qed
qed

lemma parse_hex_append:
  "parse_hex acc (xs @ ys) = (case parse_hex acc xs of None \<Rightarrow> None | Some a \<Rightarrow> parse_hex a ys)"
  by (induction xs arbitrary: acc) (auto split: option.splits)

lemma parse_hex_fmt_hex:
  "parse_hex acc (fmt_hex n) = Some (acc * 16 ^ length (fmt_hex n) + n)"
proof (induction n arbitrary: acc rule: fmt_hex.induct)
  case (1 n)
  show ?case
  proof (cases "n < 16")
    case True
    then show ?thesis by (subst (1 2) fmt_hex.simps) (simp add: hexDigit_cases)
  next
    case False
    then show ?thesis
      by (subst (1 2) fmt_hex.simps) (simp add: parse_hex_append 1 hexDigit_cases algebra_simps)
  qed
qed

lemma parse_hex_zeros: "parse_hex 0 (replicate m (CHR ''0'') @ s) = parse_hex 0 s"
  by (induction m) (auto simp: hexVal_def)

lemma zeros_lower: "list_all isLowerHex (replicate m (CHR ''0''))"
  by (induction m) (auto simp: isLowerHex_def)

lemma fmt_x_prec:
  assumes "n < 16 ^ k" "0 < k"
  shows "length (fmt_x k k n) = k"
    and "list_all isLowerHex (fmt_x k k n)"
    and "parse_hex 0 (fmt_x k k n) = Some n"
proof -
  have le: "length (fmt_hex n) \<le> k" using assms by (rule length_fmt_hex)
  then have eq: "fmt_x k k n = replicate (k - length (fmt_hex n)) (CHR ''0'') @ fmt_hex n"
    by (simp add: fmt_x_def Let_def)
  show "length (fmt_x k k n) = k" using le by (simp add: eq)
  show "list_all isLowerHex (fmt_x k k n)"
    by (simp add: eq fmt_hex_lower zeros_lower)
  show "parse_hex 0 (fmt_x k k n) = Some n"
    by (simp add: eq parse_hex_zeros parse_hex_fmt_hex)
qed

lemma split_slash_elem:
  "CHR ''/'' \<notin> set xs \<Longrightarrow>
   split_slash cur (xs @ CHR ''/'' # rest) = (rev cur @ xs) # split_slash [] rest"
  by (induction xs arbitrary: cur) auto

lemma split_slash_last:
  "CHR ''/'' \<notin> set xs \<Longrightarrow> split_slash cur xs = [rev cur @ xs]"
  by (induction xs arbitrary: cur) auto

lemma split_slash_empty: "split_slash [] (CHR ''/'' # rest) = [] # split_slash [] rest"
  by simp

lemma clean_elems_plain:
  "plain_elem e \<Longrightarrow> clean_elems rooted out (e # es) = clean_elems rooted (e # out) es"
  by (simp add: plain_elem_def)

lemma clean_elems_empty: "clean_elems rooted out ([] # es) = clean_elems rooted out es"
  by simp

lemma path_Join_prefixed:
  assumes "plain_elem d" "plain_elem a" "plain_elem b" "plain_elem c" "plain_elem f"
  shows "path_Join [d, a @ ''/'' @ b @ ''/'' @ c @ ''/'', f] =
         d @ ''/'' @ a @ ''/'' @ b @ ''/'' @ c @ ''/'' @ f"
proof -
  have ne: "d \<noteq> []" "f \<noteq> []" "hd d \<noteq> CHR ''/''"
    using assms(1,5) by (cases d; auto simp: plain_elem_def)+
  have ns: "CHR ''/'' \<notin> set d" "CHR ''/'' \<notin> set a" "CHR ''/'' \<notin> set b"
    "CHR ''/'' \<notin> set c" "CHR ''/'' \<notin> set f"
    using assms by (auto simp: plain_elem_def)
  let ?p = "d @ CHR ''/'' # a @ CHR ''/'' # b @ CHR ''/'' # c @ CHR ''/'' # CHR ''/'' # f"
  have sp: "split_slash [] ?p = [d, a, b, c, [], f]"
    by (simp only: split_slash_elem[OF ns(1)] split_slash_elem[OF ns(2)]
        split_slash_elem[OF ns(3)] split_slash_elem[OF ns(4)] split_slash_last[OF ns(5)]
        split_slash_empty rev.simps append_Nil)
  have cl: "clean_elems False [] [d, a, b, c, [], f] = [d, a, b, c, f]"
    by (simp only: clean_elems_plain[OF assms(1)] clean_elems_plain[OF assms(2)]
        clean_elems_plain[OF assms(3)] clean_elems_plain[OF assms(4)]
        clean_elems_plain[OF assms(5)] clean_elems_empty clean_elems.simps(1)
        rev.simps append.simps)
  have j: "strings_Join [d, a @ ''/'' @ b @ ''/'' @ c @ ''/'', f] ''/'' = ?p" by simp
  have pne: "?p \<noteq> []" "hd ?p = hd d" using ne by auto
  have "path_Clean ?p = d @ ''/'' @ a @ ''/'' @ b @ ''/'' @ c @ ''/'' @ f"
    using ne by (simp add: path_Clean_def Let_def pne sp cl
        del: split_slash.simps clean_elems.simps)
  then show ?thesis
    unfolding path_Join_def Let_def using ne j by simp
qed

lemma lower_no_special:
  "list_all isLowerHex xs \<Longrightarrow> CHR ''/'' \<notin> set xs \<and> CHR ''.'' \<notin> set xs \<and> CHR ''-'' \<notin> set xs"
  by (induction xs) (auto simp: isLowerHex_def)

lemma plain_hex: "list_all isLowerHex xs \<Longrightarrow> xs \<noteq> [] \<Longrightarrow> plain_elem xs"
  using lower_no_special[of xs] by (auto simp: plain_elem_def)

lemma Categories_cases:
  "cat \<in> set Categories \<Longrightarrow>
   cat = ''history'' \<or> cat = ''ledger'' \<or> cat = ''transactions'' \<or> cat = ''results'' \<or> cat = ''scp''"
  by (simp add: Categories_def)

lemma plain_category: "cat \<in> set Categories \<Longrightarrow> plain_elem cat"
  by (drule Categories_cases) (auto simp: plain_elem_def)

lemma plain_category_file:
  assumes "cat \<in> set Categories" "list_all isLowerHex h"
  shows "plain_elem (cat @ ''-'' @ h @ ''.'' @ categoryExt cat)"
  using Categories_cases[OF assms(1)] lower_no_special[OF assms(2)]
  by (auto simp: plain_elem_def categoryExt_def)

lemma hex_byte:
  fixes a :: "8 word"
  shows "length (fmt_x 2 2 (unat a)) = 2" "list_all isLowerHex (fmt_x 2 2 (unat a))"
proof -
  have lt: "unat a < 16 ^ 2" using unsigned_less[of a, where ?'a = nat] by simp
  show "length (fmt_x 2 2 (unat a)) = 2" by (rule fmt_x_prec(1)[OF lt]) simp
  show "list_all isLowerHex (fmt_x 2 2 (unat a))" by (rule fmt_x_prec(2)[OF lt]) simp
qed

lemma hex_seq:
  fixes a :: "32 word"
  shows "length (fmt_x 8 8 (unat a)) = 8" "list_all isLowerHex (fmt_x 8 8 (unat a))"
    "parse_hex 0 (fmt_x 8 8 (unat a)) = Some (unat a)"
proof -
  have lt: "unat a < 16 ^ 8" using unsigned_less[of a, where ?'a = nat] by simp
  show "length (fmt_x 8 8 (unat a)) = 8" by (rule fmt_x_prec(1)[OF lt]) simp
  show "list_all isLowerHex (fmt_x 8 8 (unat a))" by (rule fmt_x_prec(2)[OF lt]) simp
  show "parse_hex 0 (fmt_x 8 8 (unat a)) = Some (unat a)" by (rule fmt_x_prec(3)[OF lt]) simp
qed

lemma hex_hash:
  fixes a :: "256 word"
  shows "length (fmt_x 64 64 (unat a)) = 64" "list_all isLowerHex (fmt_x 64 64 (unat a))"
    "parse_hex 0 (fmt_x 64 64 (unat a)) = Some (unat a)"
proof -
  have lt: "unat a < 16 ^ 64" using unsigned_less[of a, where ?'a = nat] by simp
  show "length (fmt_x 64 64 (unat a)) = 64" by (rule fmt_x_prec(1)[OF lt]) simp
  show "list_all isLowerHex (fmt_x 64 64 (unat a))" by (rule fmt_x_prec(2)[OF lt]) simp
  show "parse_hex 0 (fmt_x 64 64 (unat a)) = Some (unat a)" by (rule fmt_x_prec(3)[OF lt]) simp
qed

lemma plain_hex_byte: "plain_elem (fmt_x 2 2 (unat (a :: 8 word)))"
  using hex_byte[of a] by (intro plain_hex) auto

lemma CategoryCheckpointPath_explicit:
  assumes "cat \<in> set Categories"
  shows "CategoryCheckpointPath cat seq =
         cat @ ''/'' @ fmt_x 2 2 (unat (ucast (drop_bit 24 seq) :: 8 word))
             @ ''/'' @ fmt_x 2 2 (unat (ucast (drop_bit 16 seq) :: 8 word))
             @ ''/'' @ fmt_x 2 2 (unat (ucast (drop_bit 8 seq) :: 8 word))
             @ ''/'' @ cat @ ''-'' @ fmt_x 8 8 (unat seq) @ ''.'' @ categoryExt cat"
  unfolding CategoryCheckpointPath_def CheckpointPrefix_def DirPrefix_Path_def Let_def prod.case
  by (rule path_Join_prefixed)
     (simp_all only: plain_category[OF assms] plain_hex_byte
        plain_category_file[OF assms hex_seq(2)])

lemma BucketPath_explicit:
  "BucketPath h =
     ''bucket'' @ ''/'' @ fmt_x 2 2 (unat (ucast (drop_bit 248 h) :: 8 word))
        @ ''/'' @ fmt_x 2 2 (unat (ucast (drop_bit 240 h) :: 8 word))
        @ ''/'' @ fmt_x 2 2 (unat (ucast (drop_bit 232 h) :: 8 word))
        @ ''/'' @ ''bucket-'' @ Hash_String h @ ''.xdr.gz''"
proof -
  have f: "plain_elem (''bucket-'' @ Hash_String h @ ''.xdr.gz'')"
    using lower_no_special[OF hex_hash(2)[of h]] by (auto simp: plain_elem_def Hash_String_def)
  have b: "plain_elem ''bucket''" by (simp add: plain_elem_def)
  show ?thesis
    unfolding BucketPath_def HashPrefix_def DirPrefix_Path_def Let_def prod.case
    by (rule path_Join_prefixed) (simp_all only: b f plain_hex_byte)
qed

lemma rx_here_Lit: "rx_here (Lit l # r) (l @ t) = rx_here r t"
  by simp

lemma rx_here_HexN:
  "length h = n \<Longrightarrow> list_all isLowerHex h \<Longrightarrow> rx_here (HexN n # r) (h @ t) = rx_here r t"
  by simp

lemma rx_here_CapHexN:
  "length h = n \<Longrightarrow> list_all isLowerHex h \<Longrightarrow>
   rx_here (CapHexN n # r) (h @ t) = map_option (\<lambda>caps. h # caps) (rx_here r t)"
  by simp

lemma FindStringSubmatch_here:
  "rx_here rx s = Some caps \<Longrightarrow> FindStringSubmatch rx s = Some caps"
  by (cases s) auto

lemma FindStringSubmatch_suffix:
  "FindStringSubmatch rx s = Some caps \<Longrightarrow> \<exists>pre t. s = pre @ t \<and> rx_here rx t = Some caps"
proof (induction s)
  case Nil
  then show ?case by simp
next
  case (Cons c s)
  show ?case
  proof (cases "rx_here rx (c # s)")
    case (Some a)
    with Cons.prems have "rx_here rx (c # s) = Some caps" by simp
    then show ?thesis by (intro exI[of _ "[]"] exI[of _ "c # s"]) simp
  next
    case None
    with Cons.prems have "FindStringSubmatch rx s = Some caps" by simp
    from Cons.IH[OF this] obtain pre t where "s = pre @ t" "rx_here rx t = Some caps" by blast
    then show ?thesis by (intro exI[of _ "c # pre"] exI[of _ t]) simp
  qed
qed

lemma rx_here_Lit1: "rx_here (Lit [x] # r) (x # t) = rx_here r t"
  by simp

lemma rx_here_Lit_end: "rx_here [Lit l, EndOfText] l = Some []"
  by simp

lemma categoryRx_match:
  assumes "length a = 2" "list_all isLowerHex a" "length b = 2" "list_all isLowerHex b"
    "length c = 2" "list_all isLowerHex c" "length h = 8" "list_all isLowerHex h"
  shows "rx_here (categoryRx cat)
           (cat @ ''/'' @ a @ ''/'' @ b @ ''/'' @ c @ ''/'' @ cat @ ''-'' @ h @ ''.'' @ categoryExt cat)
         = Some [h]"
  unfolding categoryRx_def hexPrefixPat_def Let_def append.simps
  by (simp only: rx_here_Lit rx_here_Lit1 rx_here_HexN[OF assms(1,2)] rx_here_HexN[OF assms(3,4)]
        rx_here_HexN[OF assms(5,6)] rx_here_CapHexN[OF assms(7,8)] rx_here_Lit_end
        option.map)

lemma rx_Lit_inv:
  assumes "rx_here (Lit l # r) s = Some caps"
  shows "\<exists>t. s = l @ t \<and> rx_here r t = Some caps"
proof -
  from assms have c: "take (length l) s = l" "rx_here r (drop (length l) s) = Some caps"
    by (auto split: if_splits)
  have "s = take (length l) s @ drop (length l) s" by simp
  with c have "s = l @ drop (length l) s" by simp
  with c(2) show ?thesis by blast
qed

lemma rx_HexN_inv:
  assumes "rx_here (HexN n # r) s = Some caps"
  shows "\<exists>h t. s = h @ t \<and> length h = n \<and> rx_here r t = Some caps"
proof -
  from assms have c: "n \<le> length s" "rx_here r (drop n s) = Some caps"
    by (auto split: if_splits)
  then show ?thesis
    by (intro exI[of _ "take n s"] exI[of _ "drop n s"]) simp
qed

lemma rx_CapHexN_inv:
  assumes "rx_here (CapHexN n # r) s = Some caps"
  shows "\<exists>h t caps'. s = h @ t \<and> length h = n \<and> rx_here r t = Some caps' \<and> caps = h # caps'"
proof -
  from assms have c: "n \<le> length s"
    "map_option (\<lambda>caps. take n s # caps) (rx_here r (drop n s)) = Some caps"
    by (auto split: if_splits)
  then obtain caps' where "rx_here r (drop n s) = Some caps'" "caps = take n s # caps'" by auto
  with c(1) show ?thesis
    by (intro exI[of _ "take n s"] exI[of _ "drop n s"] exI[of _ caps']) simp
qed

lemma rx_End_inv: "rx_here [EndOfText] s = Some caps \<Longrightarrow> s = [] \<and> caps = []"
  by (auto split: if_splits)

lemma categoryRx_shape:
  assumes "rx_here (categoryRx cat) t = Some caps"
  shows "\<exists>a b c h. t = cat @ ''/'' @ a @ ''/'' @ b @ ''/'' @ c @ ''/'' @ cat @ ''-'' @ h @ ''.'' @ categoryExt cat
           \<and> length a = 2 \<and> length b = 2 \<and> length c = 2 \<and> length h = 8 \<and> caps = [h]"
proof -
  note lit = rx_Lit_inv and hex = rx_HexN_inv and cap = rx_CapHexN_inv and en = rx_End_inv
  have 0: "rx_here ([Lit cat, Lit ''/'', HexN 2, Lit ''/'', HexN 2, Lit ''/'', HexN 2, Lit ''/'',
        Lit cat, Lit ''-'', CapHexN 8, Lit ''.'', Lit (categoryExt cat), EndOfText]) t = Some caps"
    using assms unfolding categoryRx_def hexPrefixPat_def Let_def append.simps .
  from lit[OF 0] obtain t1 where 1: "t = cat @ t1"
      "rx_here ([Lit ''/'', HexN 2, Lit ''/'', HexN 2, Lit ''/'', HexN 2, Lit ''/'',
        Lit cat, Lit ''-'', CapHexN 8, Lit ''.'', Lit (categoryExt cat), EndOfText]) t1 = Some caps"
    by blast
  from lit[OF 1(2)] obtain u1 where u1: "t1 = ''/'' @ u1"
     "rx_here [HexN 2, Lit ''/'', HexN 2, Lit ''/'', HexN 2, Lit ''/'',
        Lit cat, Lit ''-'', CapHexN 8, Lit ''.'', Lit (categoryExt cat), EndOfText] u1 = Some caps"
    by blast
  from hex[OF u1(2)] obtain a u2 where u2: "u1 = a @ u2" "length a = 2"
     "rx_here [Lit ''/'', HexN 2, Lit ''/'', HexN 2, Lit ''/'',
        Lit cat, Lit ''-'', CapHexN 8, Lit ''.'', Lit (categoryExt cat), EndOfText] u2 = Some caps"
    by blast
  from lit[OF u2(3)] obtain u3 where u3: "u2 = ''/'' @ u3"
     "rx_here [HexN 2, Lit ''/'', HexN 2, Lit ''/'',
        Lit cat, Lit ''-'', CapHexN 8, Lit ''.'', Lit (categoryExt cat), EndOfText] u3 = Some caps"
    by blast
  from hex[OF u3(2)] obtain b u4 where u4: "u3 = b @ u4" "length b = 2"
     "rx_here [Lit ''/'', HexN 2, Lit ''/'',
        Lit cat, Lit ''-'', CapHexN 8, Lit ''.'', Lit (categoryExt cat), EndOfText] u4 = Some caps"
    by blast
  from lit[OF u4(3)] obtain u5 where u5: "u4 = ''/'' @ u5"
     "rx_here [HexN 2, Lit ''/'',
        Lit cat, Lit ''-'', CapHexN 8, Lit ''.'', Lit (categoryExt cat), EndOfText] u5 = Some caps"
    by blast
  from hex[OF u5(2)] obtain c u6 where u6: "u5 = c @ u6" "length c = 2"
     "rx_here [Lit ''/'',
        Lit cat, Lit ''-'', CapHexN 8, Lit ''.'', Lit (categoryExt cat), EndOfText] u6 = Some caps"
    by blast
  from lit[OF u6(3)] obtain t2 where u7: "u6 = ''/'' @ t2"
     "rx_here [Lit cat, Lit ''-'', CapHexN 8, Lit ''.'', Lit (categoryExt cat), EndOfText] t2 = Some caps"
    by blast
  have 2: "t1 = ''/'' @ a @ ''/'' @ b @ ''/'' @ c @ ''/'' @ t2"
     "length a = 2" "length b = 2" "length c = 2"
    by (simp_all add: u1 u2 u3 u4 u5 u6 u7)
  from lit[OF u7(2)] obtain v1 where v1: "t2 = cat @ v1"
     "rx_here [Lit ''-'', CapHexN 8, Lit ''.'', Lit (categoryExt cat), EndOfText] v1 = Some caps"
    by blast
  from lit[OF v1(2)] obtain v2 where v2: "v1 = ''-'' @ v2"
     "rx_here [CapHexN 8, Lit ''.'', Lit (categoryExt cat), EndOfText] v2 = Some caps"
    by blast
  from cap[OF v2(2)] obtain h t3 caps' where v3: "v2 = h @ t3" "length h = 8"
     "rx_here [Lit ''.'', Lit (categoryExt cat), EndOfText] t3 = Some caps'" "caps = h # caps'"
    by blast
  from lit[OF v3(3)] obtain v4 where v4: "t3 = ''.'' @ v4"
     "rx_here [Lit (categoryExt cat), EndOfText] v4 = Some caps'"
    by blast
  from lit[OF v4(2)] obtain t4 where v5: "v4 = categoryExt cat @ t4"
     "rx_here [EndOfText] t4 = Some caps'"
    by blast
  from en[OF v5(2)] have 5: "t4 = []" "caps' = []" by auto
  show ?thesis
    by (intro exI[of _ a] exI[of _ b] exI[of _ c] exI[of _ h])
       (simp add: 1 2 v1 v2 v3 v4 v5 5)
qed

lemma ParseUint_fmt_x:
  "ParseUint_16_32 (fmt_x 8 8 (unat (seq :: 32 word))) = Inr (unat seq)"
proof -
  have ne: "fmt_x 8 8 (unat seq) \<noteq> []" using hex_seq(1)[of seq] by auto
  have lt: "unat seq < 2 ^ 32" using unsigned_less[of seq, where ?'a = nat] by simp
  show ?thesis
    unfolding ParseUint_16_32_def using ne lt by (simp add: hex_seq(3))
qed

lemma parse_own_path:
  assumes "cat \<in> set Categories"
  shows "parseCategoryCheckpoint cat (CategoryCheckpointPath cat seq) = Some seq"
proof -
  have "rx_here (categoryRx cat) (CategoryCheckpointPath cat seq) = Some [fmt_x 8 8 (unat seq)]"
    unfolding CategoryCheckpointPath_explicit[OF assms]
    by (rule categoryRx_match) (simp_all only: hex_byte hex_seq)
  then have "FindStringSubmatch (categoryRx cat) (CategoryCheckpointPath cat seq)
               = Some [fmt_x 8 8 (unat seq)]"
    by (rule FindStringSubmatch_here)
  then show ?thesis
    by (simp add: parseCategoryCheckpoint_def ParseUint_fmt_x)
qed

lemma parse_other_path:
  assumes "cat \<in> set Categories" "cat' \<in> set Categories"
    and m: "FindStringSubmatch (categoryRx cat') (CategoryCheckpointPath cat seq) = Some caps"
  shows "cat' = cat"
proof -
  from FindStringSubmatch_suffix[OF m] obtain pre t where
    pt: "CategoryCheckpointPath cat seq = pre @ t" "rx_here (categoryRx cat') t = Some caps"
    by blast
  from categoryRx_shape[OF pt(2)] obtain a b c h where
    t: "t = cat' @ ''/'' @ a @ ''/'' @ b @ ''/'' @ c @ ''/'' @ cat' @ ''-'' @ h @ ''.'' @ categoryExt cat'"
    and len: "length h = 8" by blast
  let ?H = "fmt_x 8 8 (unat seq)"
  have lenH: "length ?H = 8" by (rule hex_seq(1))
  have "rev (CategoryCheckpointPath cat seq) = rev (pre @ t)" using pt(1) by simp
  then have "\<exists>H' h' X Y. length H' = length h' \<and>
      rev (categoryExt cat) @ ''.'' @ H' @ ''-'' @ rev cat @ ''/'' @ X
      = rev (categoryExt cat') @ ''.'' @ h' @ ''-'' @ rev cat' @ ''/'' @ Y"
    unfolding CategoryCheckpointPath_explicit[OF assms(1)] t
    by (intro exI[of _ "rev ?H"] exI[of _ "rev h"]
        exI[of _ "rev (cat @ ''/'' @ fmt_x 2 2 (unat (ucast (drop_bit 24 seq) :: 8 word))
             @ ''/'' @ fmt_x 2 2 (unat (ucast (drop_bit 16 seq) :: 8 word))
             @ ''/'' @ fmt_x 2 2 (unat (ucast (drop_bit 8 seq) :: 8 word)))"]
        exI[of _ "rev (pre @ cat' @ ''/'' @ a @ ''/'' @ b @ ''/'' @ c)"])
       (simp add: len lenH)
  then obtain H' h' X Y where l: "length H' = length (h' :: string)" and
      e: "rev (categoryExt cat) @ ''.'' @ H' @ ''-'' @ rev cat @ ''/'' @ X
      = rev (categoryExt cat') @ ''.'' @ h' @ ''-'' @ rev cat' @ ''/'' @ Y"
    by blast
  from Categories_cases[OF assms(1)] Categories_cases[OF assms(2)] show ?thesis
    using e l by (elim disjE) (simp_all add: categoryExt_def)
qed

section \<open>Checkpoint paths and the scanner\<close>

text \<open>
  C9. For every category of the fixed set and every 32-bit sequence number, the path
  that \<^verbatim>\<open>CategoryCheckpointPath\<close> builds is matched by the expression that
  \<^verbatim>\<open>ListCategoryCheckpoints\<close> compiles for the category, and the number parsed from
  the captured group is the sequence number; no other category's expression matches
  the path; the file name carries the sequence number as eight lowercase hexadecimal
  digits, with extension \<^verbatim>\<open>json\<close> for \<^verbatim>\<open>history\<close> and \<^verbatim>\<open>xdr.gz\<close> otherwise.
\<close>

theorem CategoryCheckpointPath_parse_roundtrip:
  assumes "cat \<in> set Categories"
  shows "parseCategoryCheckpoint cat (CategoryCheckpointPath cat seq) = Some seq
       \<and> (\<forall>cat' \<in> set Categories.
             parseCategoryCheckpoint cat' (CategoryCheckpointPath cat seq) \<noteq> None \<longrightarrow> cat' = cat)
       \<and> (\<exists>a b c ds.
             CategoryCheckpointPath cat seq =
               cat @ ''/'' @ a @ ''/'' @ b @ ''/'' @ c @ ''/'' @
               cat @ ''-'' @ ds @ ''.'' @ (if cat = ''history'' then ''json'' else ''xdr.gz'')
             \<and> length a = 2 \<and> list_all isLowerHex a
             \<and> length b = 2 \<and> list_all isLowerHex b
             \<and> length c = 2 \<and> list_all isLowerHex c
             \<and> length ds = 8 \<and> list_all isLowerHex ds
             \<and> ParseUint_16_32 ds = Inr (unat seq))"
proof (intro conjI ballI impI)
  show "parseCategoryCheckpoint cat (CategoryCheckpointPath cat seq) = Some seq"
    by (rule parse_own_path[OF assms])
next
  fix cat' assume c: "cat' \<in> set Categories"
    and p: "parseCategoryCheckpoint cat' (CategoryCheckpointPath cat seq) \<noteq> None"
  from p obtain caps where
    "FindStringSubmatch (categoryRx cat') (CategoryCheckpointPath cat seq) = Some caps"
    by (auto simp: parseCategoryCheckpoint_def split: option.splits)
  then show "cat' = cat" by (rule parse_other_path[OF assms c])
next
  show "\<exists>a b c ds.
             CategoryCheckpointPath cat seq =
               cat @ ''/'' @ a @ ''/'' @ b @ ''/'' @ c @ ''/'' @
               cat @ ''-'' @ ds @ ''.'' @ (if cat = ''history'' then ''json'' else ''xdr.gz'')
             \<and> length a = 2 \<and> list_all isLowerHex a
             \<and> length b = 2 \<and> list_all isLowerHex b
             \<and> length c = 2 \<and> list_all isLowerHex c
             \<and> length ds = 8 \<and> list_all isLowerHex ds
             \<and> ParseUint_16_32 ds = Inr (unat seq)"
    by (intro exI[of _ "fmt_x 2 2 (unat (ucast (drop_bit 24 seq) :: 8 word))"]
              exI[of _ "fmt_x 2 2 (unat (ucast (drop_bit 16 seq) :: 8 word))"]
              exI[of _ "fmt_x 2 2 (unat (ucast (drop_bit 8 seq) :: 8 word))"]
              exI[of _ "fmt_x 8 8 (unat seq)"])
       (simp add: CategoryCheckpointPath_explicit[OF assms] hex_byte hex_seq ParseUint_fmt_x
          categoryExt_def)
qed

lemma scp_in_Categories: "''scp'' \<in> set Categories"
  by (simp add: Categories_def)

theorem CategoryCheckpointPath_parse_roundtrip_witness:
  "''scp'' \<in> set Categories
   \<and> parseCategoryCheckpoint ''scp'' (CategoryCheckpointPath ''scp'' 0x3fff) = Some 0x3fff
   \<and> parseCategoryCheckpoint ''history'' (CategoryCheckpointPath ''scp'' 0x3fff) = None"
proof -
  have h: "''history'' \<in> set Categories" by (simp add: Categories_def)
  from CategoryCheckpointPath_parse_roundtrip[OF scp_in_Categories, of "0x3fff"]
  have 1: "parseCategoryCheckpoint ''scp'' (CategoryCheckpointPath ''scp'' 0x3fff) = Some 0x3fff"
    and 2: "\<forall>cat' \<in> set Categories.
             parseCategoryCheckpoint cat' (CategoryCheckpointPath ''scp'' 0x3fff) \<noteq> None
             \<longrightarrow> cat' = ''scp''"
    by blast+
  from 2 h have "parseCategoryCheckpoint ''history'' (CategoryCheckpointPath ''scp'' 0x3fff) = None"
    by fastforce
  with 1 scp_in_Categories show ?thesis by simp
qed

lemma replicate_numeral: "replicate (numeral k) x = x # replicate (pred_numeral k) x"
  by (simp add: numeral_eq_Suc)

lemmas path_eval = CategoryCheckpointPath_def BucketPath_def CheckpointPrefix_def HashPrefix_def
  DirPrefix_Path_def Hash_String_def
  categoryExt_def path_Join_def path_Clean_def fmt_x_def fmt_hex.simps hexDigit_def Let_def
  drop_bit_eq_div replicate_numeral

lemma CategoryCheckpointPath_example:
  "CategoryCheckpointPath ''scp'' 0x3fff = ''scp/00/00/3f/scp-00003fff.xdr.gz''"
  by (simp add: path_eval)

lemma BucketPath_example:
  "BucketPath 0xff23456789abcdef0123456789abcdef0123456789abcdef0123456789abcdef =
   ''bucket/ff/23/45/bucket-ff23456789abcdef0123456789abcdef0123456789abcdef0123456789abcdef.xdr.gz''"
  by (simp add: path_eval)



section \<open>Connect and the URL scheme\<close>

lemmas url_eval = url_Parse_def url_parse_def getScheme_def isAlpha_def isDigit_def toLower_def
  ishex_def unhex_def quoted_def EscapeError_def url_Error_def stringContainsCTLByte_def Let_def

lemma getScheme_quux_bad_escape: "getScheme ''quux://x/%zz'' = Inr (''quux'', ''//x/%zz'')"
  by (simp add: url_eval)

lemma url_Parse_quux_bad_escape:
  "url_Parse ''quux://x/%zz''
     = Inl (''parse '' @ [CHR 0x22] @ ''quux://x/%zz'' @ [CHR 0x22] @ '': invalid URL escape ''
            @ [CHR 0x22] @ ''%zz'' @ [CHR 0x22])"
  by (simp add: url_eval)

lemma url_Parse_quux:
  "url_Parse ''quux://x'' = Inr \<lparr>Scheme = ''quux'', Host = ''x'', Path = []\<rparr>"
  by (simp add: url_eval)

lemma url_Parse_mock:
  "url_Parse ''mock://x'' = Inr \<lparr>Scheme = ''mock'', Host = ''x'', Path = []\<rparr>"
  by (simp add: url_eval)

text \<open>
  C7 (as stated) does not hold for every URL whose scheme is none of \<^verbatim>\<open>s3\<close>,
  \<^verbatim>\<open>file\<close> and \<^verbatim>\<open>mock\<close>. The scheme of \<^verbatim>\<open>quux://x/%zz\<close> is \<^verbatim>\<open>quux\<close>, but
  \<^verbatim>\<open>url.Parse\<close> rejects the URL for its escape \<^verbatim>\<open>%zz\<close>, and \<^verbatim>\<open>Connect\<close> returns that
  error before it looks at the scheme: the error is not the \<^verbatim>\<open>unknown URL scheme\<close> one.
  The backend is left unset.
\<close>

theorem Connect_unparseable_URL_reports_parse_error:
  "getScheme ''quux://x/%zz'' = Inr (''quux'', ''//x/%zz'')
   \<and> Connect url_Parse (\<lambda>h p opts. MakeMockBackend) (\<lambda>p. MakeMockBackend)
        (\<lambda>u. MakeMockBackend) ''quux://x/%zz'' None
       = (emptyArchive,
          Some (''parse '' @ [CHR 0x22] @ ''quux://x/%zz'' @ [CHR 0x22]
                @ '': invalid URL escape '' @ [CHR 0x22] @ ''%zz'' @ [CHR 0x22]))
   \<and> snd (Connect url_Parse (\<lambda>h p opts. MakeMockBackend) (\<lambda>p. MakeMockBackend)
        (\<lambda>u. MakeMockBackend) ''quux://x/%zz'' None)
       \<noteq> Some (''unknown URL scheme: '' @ [CHR 0x27] @ ''quux'' @ [CHR 0x27])
   \<and> backend (fst (Connect url_Parse (\<lambda>h p opts. MakeMockBackend) (\<lambda>p. MakeMockBackend)
        (\<lambda>u. MakeMockBackend) ''quux://x/%zz'' None)) = None"
  by (simp add: Connect_def getScheme_quux_bad_escape url_Parse_quux_bad_escape emptyArchive_def)

text \<open>
  C7 (as amended). When \<^verbatim>\<open>url.Parse\<close> rejects the URL, \<^verbatim>\<open>Connect\<close> returns the error of
  \<^verbatim>\<open>url.Parse\<close>, whatever the scheme, and leaves the backend of the returned archive unset.
  When \<^verbatim>\<open>url.Parse\<close> accepts the URL and its scheme is none of \<^verbatim>\<open>s3\<close>,
  \<^verbatim>\<open>file\<close> and \<^verbatim>\<open>mock\<close>, \<^verbatim>\<open>Connect\<close> returns the error
  \<^verbatim>\<open>unknown URL scheme: '<scheme>'\<close> and leaves the backend unset; for each of the three
  schemes it returns no error and sets the backend.
\<close>

theorem Connect_parse_error_or_scheme:
  "(\<forall>err. parse u = Inl err \<longrightarrow>
      snd (Connect parse makeS makeF makeM u opts) = Some err
      \<and> backend (fst (Connect parse makeS makeF makeM u opts)) = None)
   \<and> (\<forall>parsed. parse u = Inr parsed \<longrightarrow>
        (Scheme parsed \<notin> {''s3'', ''file'', ''mock''} \<longrightarrow>
            snd (Connect parse makeS makeF makeM u opts)
              = Some (''unknown URL scheme: '' @ [CHR 0x27] @ Scheme parsed @ [CHR 0x27])
            \<and> backend (fst (Connect parse makeS makeF makeM u opts)) = None)
        \<and> (Scheme parsed \<in> {''s3'', ''file'', ''mock''} \<longrightarrow>
            snd (Connect parse makeS makeF makeM u opts) = None
            \<and> backend (fst (Connect parse makeS makeF makeM u opts)) \<noteq> None))"
  by (simp add: Connect_def Let_def emptyArchive_def)

theorem Connect_parse_error_or_scheme_witness:
  "snd (Connect url_Parse (\<lambda>h p opts. MakeMockBackend) (\<lambda>p. MakeMockBackend)
          (\<lambda>u. MakeMockBackend) ''quux://x/%zz'' None)
      = Some (''parse '' @ [CHR 0x22] @ ''quux://x/%zz'' @ [CHR 0x22]
              @ '': invalid URL escape '' @ [CHR 0x22] @ ''%zz'' @ [CHR 0x22])
   \<and> backend (fst (Connect url_Parse (\<lambda>h p opts. MakeMockBackend) (\<lambda>p. MakeMockBackend)
          (\<lambda>u. MakeMockBackend) ''quux://x/%zz'' None)) = None
   \<and> snd (Connect url_Parse (\<lambda>h p opts. MakeMockBackend) (\<lambda>p. MakeMockBackend)
          (\<lambda>u. MakeMockBackend) ''quux://x'' None)
      = Some (''unknown URL scheme: '' @ [CHR 0x27] @ ''quux'' @ [CHR 0x27])
   \<and> backend (fst (Connect url_Parse (\<lambda>h p opts. MakeMockBackend) (\<lambda>p. MakeMockBackend)
          (\<lambda>u. MakeMockBackend) ''quux://x'' None)) = None
   \<and> snd (Connect url_Parse (\<lambda>h p opts. MakeMockBackend) (\<lambda>p. MakeMockBackend)
          (\<lambda>u. MakeMockBackend) ''mock://x'' None) = None
   \<and> backend (fst (Connect url_Parse (\<lambda>h p opts. MakeMockBackend) (\<lambda>p. MakeMockBackend)
          (\<lambda>u. MakeMockBackend) ''mock://x'' None)) \<noteq> None"
  using
    Connect_parse_error_or_scheme[where parse = url_Parse and u = "''quux://x/%zz''"
      and makeS = "\<lambda>h p opts. MakeMockBackend" and makeF = "\<lambda>p. MakeMockBackend"
      and makeM = "\<lambda>u. MakeMockBackend" and opts = None]
    Connect_parse_error_or_scheme[where parse = url_Parse and u = "''quux://x''"
      and makeS = "\<lambda>h p opts. MakeMockBackend" and makeF = "\<lambda>p. MakeMockBackend"
      and makeM = "\<lambda>u. MakeMockBackend" and opts = None]
    Connect_parse_error_or_scheme[where parse = url_Parse and u = "''mock://x''"
      and makeS = "\<lambda>h p opts. MakeMockBackend" and makeF = "\<lambda>p. MakeMockBackend"
      and makeM = "\<lambda>u. MakeMockBackend" and opts = None]
  unfolding url_Parse_quux_bad_escape url_Parse_quux url_Parse_mock
  by simp
section \<open>ReportMissing\<close>

lemma GetFile_archives: "GetFile a p w = (w', r) \<Longrightarrow> archives w' = archives w"
  by (auto simp: GetFile_def emit_def split: option.splits)

lemma GetFile_trace:
  "GetFile a p w = (w', r) \<Longrightarrow>
   trace w' = trace w @ (if backend (archives w a) = None then [] else [EvGet a p])"
  by (auto simp: GetFile_def emit_def split: option.splits)


lemma GetPathHAS_archives: "GetPathHAS D a p w = (w', r) \<Longrightarrow> archives w' = archives w"
  unfolding GetPathHAS_def andThen_def
  by (cases "GetFile a p w")
     (auto simp: ret_def dest: GetFile_archives split: outcome.splits sum.splits)

lemma GetPathHAS_trace:
  "GetPathHAS D a p w = (w', r) \<Longrightarrow>
   trace w' = trace w @ (if backend (archives w a) = None then [] else [EvGet a p])"
  unfolding GetPathHAS_def andThen_def
  by (cases "GetFile a p w")
     (auto simp: ret_def dest!: GetFile_trace split: outcome.splits sum.splits if_splits)




lemma report_checkpoint_gaps_fold:
  "fold (\<lambda>(cat, missing) (missingCheckpoints, logged).
             if \<not> categoryRequired cat then (missingCheckpoints, logged)
             else
               let s = map (\<lambda>m. ''0x'' @ fmt_x 8 8 (unat m)) missing
               in if length missing \<noteq> 0
                  then (True, logged @ [''Missing '' @ cat @ '': '' @ strings_Join s '', ''])
                  else (missingCheckpoints, logged)) m (flag, acc)
   = (flag \<or> (\<exists>(cat, missing) \<in> set m. categoryRequired cat \<and> missing \<noteq> []),
      acc @ map (\<lambda>(cat, missing). ''Missing '' @ cat @ '': '' @
                    strings_Join (map (\<lambda>m. ''0x'' @ fmt_x 8 8 (unat m)) missing) '', '')
              (filter (\<lambda>(cat, missing). categoryRequired cat \<and> missing \<noteq> []) m))"
proof (induction m arbitrary: flag acc)
  case Nil
  show ?case by simp
next
  case (Cons x m)
  obtain cat missing where x: "x = (cat, missing)" by (cases x)
  show ?case unfolding x by (simp add: Cons.IH Let_def)
qed

lemma report_checkpoint_gaps_eq:
  "report_checkpoint_gaps m
   = ((\<exists>(cat, missing) \<in> set m. categoryRequired cat \<and> missing \<noteq> []),
      map (\<lambda>(cat, missing). ''Missing '' @ cat @ '': '' @
                    strings_Join (map (\<lambda>m. ''0x'' @ fmt_x 8 8 (unat m)) missing) '', '')
          (filter (\<lambda>(cat, missing). categoryRequired cat \<and> missing \<noteq> []) m))"
  unfolding report_checkpoint_gaps_def report_checkpoint_gaps_fold by simp

lemma report_checkpoint_gaps_no_scp:
  assumes "fst ` set m \<subseteq> set Categories"
    and "line \<in> set (snd (report_checkpoint_gaps m))"
  shows "take 12 line \<noteq> ''Missing scp:''"
proof -
  from assms(2) obtain cat missing where
    c: "(cat, missing) \<in> set m" "categoryRequired cat"
    and l: "line = ''Missing '' @ cat @ '': '' @
              strings_Join (map (\<lambda>m. ''0x'' @ fmt_x 8 8 (unat m)) missing) '', ''"
    by (auto simp: report_checkpoint_gaps_eq)
  from c(1) assms(1) have "cat \<in> set Categories" by force
  then show ?thesis using c(2) unfolding l
    by (auto simp: Categories_def categoryRequired_def)
qed


lemma CheckCheckpointFilesMissing_keys:
  "fst ` set (CheckCheckpointFilesMissing arch chks) \<subseteq> set Categories"
  by (auto simp: CheckCheckpointFilesMissing_eq)

lemma ReportMissing_unfold:
  assumes "GetRootHAS D a w = (w1, Returns (Inr state))"
  shows "ReportMissing D a rng w =
     (w1, Returns
       ([''Examining checkpoint files for gaps'', ''Examining buckets referenced by checkpoints'']
        @ snd (report_checkpoint_gaps (CheckCheckpointFilesMissing (archives w a)
                 (rng_Checkpoints D (rng_Clamp D rng (has_Range D state)))))
        @ (if \<not> fst (report_checkpoint_gaps (CheckCheckpointFilesMissing (archives w a)
                 (rng_Checkpoints D (rng_Clamp D rng (has_Range D state)))))
           then [''No checkpoint files missing in range '' @
                 rng_String D (rng_Clamp D rng (has_Range D state))]
           else [])
        @ map (\<lambda>(bucket, _). ''Missing bucket: '' @ Hash_String bucket)
            (CheckBucketsMissing (archives w a))
        @ (if length (CheckBucketsMissing (archives w a)) = 0
           then [''No missing buckets referenced in range '' @
                 rng_String D (rng_Clamp D rng (has_Range D state))]
           else []),
        None))"
proof -
  from assms have "GetPathHAS D a rootHASPath w = (w1, Returns (Inr state))"
    by (simp add: GetRootHAS_def)
  from GetPathHAS_archives[OF this] have a: "archives w1 = archives w" .
  show ?thesis
    by (simp add: ReportMissing_def andThen_def assms ret_def Let_def a split: prod.splits)
qed

text \<open>
  C6. When the root manifest can be read, \<^verbatim>\<open>ReportMissing\<close> logs no line
  \<^verbatim>\<open>Missing scp: ...\<close>, whatever is missing; and when every checkpoint of the clamped
  range is recorded for each category other than \<^verbatim>\<open>scp\<close>, its report on checkpoint
  files is the single line \<^verbatim>\<open>No checkpoint files missing in range ...\<close>.
\<close>

theorem ReportMissing_scp_optional:
  assumes "GetRootHAS D a w = (w1, Returns (Inr state))"
  shows "(\<exists>logged. ReportMissing D a rng w = (w1, Returns (logged, None))
            \<and> list_all (\<lambda>line. take 12 line \<noteq> ''Missing scp:'') logged)
       \<and> (list_all (\<lambda>cat. cat = ''scp'' \<or>
                 list_all (checkpointFile_ok (archives w a) cat)
                   (rng_Checkpoints D (rng_Clamp D rng (has_Range D state)))) Categories
          \<longrightarrow> ReportMissing D a rng w =
               (w1, Returns
                 ([''Examining checkpoint files for gaps'',
                   ''Examining buckets referenced by checkpoints'',
                   ''No checkpoint files missing in range '' @
                     rng_String D (rng_Clamp D rng (has_Range D state))]
                  @ map (\<lambda>(bucket, _). ''Missing bucket: '' @ Hash_String bucket)
                      (CheckBucketsMissing (archives w a))
                  @ (if length (CheckBucketsMissing (archives w a)) = 0
                     then [''No missing buckets referenced in range '' @
                           rng_String D (rng_Clamp D rng (has_Range D state))]
                     else []),
                  None)))"
proof (intro conjI impI)
  let ?chks = "rng_Checkpoints D (rng_Clamp D rng (has_Range D state))"
  let ?m = "CheckCheckpointFilesMissing (archives w a) ?chks"
  have "\<forall>line \<in> set (snd (report_checkpoint_gaps ?m)). take 12 line \<noteq> ''Missing scp:''"
    using report_checkpoint_gaps_no_scp[OF CheckCheckpointFilesMissing_keys] by blast
  then show "\<exists>logged. ReportMissing D a rng w = (w1, Returns (logged, None))
            \<and> list_all (\<lambda>line. take 12 line \<noteq> ''Missing scp:'') logged"
    unfolding ReportMissing_unfold[OF assms] by (auto simp: list_all_iff)
next
  let ?chks = "rng_Checkpoints D (rng_Clamp D rng (has_Range D state))"
  let ?m = "CheckCheckpointFilesMissing (archives w a) ?chks"
  assume h: "list_all (\<lambda>cat. cat = ''scp'' \<or>
                 list_all (checkpointFile_ok (archives w a) cat) ?chks) Categories"
  have "filter (\<lambda>(cat, missing). categoryRequired cat \<and> missing \<noteq> []) ?m = []"
    using h by (auto simp: CheckCheckpointFilesMissing_eq filter_empty_conv list_all_iff
        categoryRequired_def)
  then have "report_checkpoint_gaps ?m = (False, [])"
    by (auto simp: report_checkpoint_gaps_eq filter_empty_conv)
  then show "ReportMissing D a rng w =
               (w1, Returns
                 ([''Examining checkpoint files for gaps'',
                   ''Examining buckets referenced by checkpoints'',
                   ''No checkpoint files missing in range '' @
                     rng_String D (rng_Clamp D rng (has_Range D state))]
                  @ map (\<lambda>(bucket, _). ''Missing bucket: '' @ Hash_String bucket)
                      (CheckBucketsMissing (archives w a))
                  @ (if length (CheckBucketsMissing (archives w a)) = 0
                     then [''No missing buckets referenced in range '' @
                           rng_String D (rng_Clamp D rng (has_Range D state))]
                     else []),
                  None))"
    unfolding ReportMissing_unfold[OF assms] by simp
qed


lemmas example_eval = exampleDeps_def storeOf_def emptyArchive_def MakeMockBackend_def
  Categories_def rootHASPath_def GetRootHAS_def GetPathHAS_def GetFile_def andThen_def
  ret_def emit_def modify_archive_def

lemma exampleScanned_root:
  "GetRootHAS exampleDeps 0 exampleScanned
   = (emit (EvGet 0 rootHASPath) exampleScanned, Returns (Inr ((63, 127), [])))"
  by (simp add: exampleScanned_def example_eval)

theorem ReportMissing_scp_optional_witness:
  "GetRootHAS exampleDeps 0 exampleScanned
     = (emit (EvGet 0 rootHASPath) exampleScanned, Returns (Inr ((63, 127), [])))
   \<and> ReportMissing exampleDeps 0 (0, 0xffffffff) exampleScanned
     = (emit (EvGet 0 rootHASPath) exampleScanned,
        Returns ([''Examining checkpoint files for gaps'',
                  ''Examining buckets referenced by checkpoints'',
                  ''No checkpoint files missing in range [range]'',
                  ''No missing buckets referenced in range [range]''], None))"
proof -
  have h: "list_all (\<lambda>cat. cat = ''scp'' \<or>
             list_all (checkpointFile_ok (archives exampleScanned 0) cat)
               (rng_Checkpoints exampleDeps
                 (rng_Clamp exampleDeps (0, 0xffffffff) (has_Range exampleDeps ((63, 127), [])))))
           Categories"
    by (simp add: exampleScanned_def example_eval checkpointFile_ok_def)
  have b: "CheckBucketsMissing (archives exampleScanned 0) = []"
    by (simp add: exampleScanned_def example_eval CheckBucketsMissing_def)
  from ReportMissing_scp_optional[OF exampleScanned_root, of "(0, 0xffffffff)"] h
  have "ReportMissing exampleDeps 0 (0, 0xffffffff) exampleScanned
     = (emit (EvGet 0 rootHASPath) exampleScanned,
        Returns ([''Examining checkpoint files for gaps'',
                  ''Examining buckets referenced by checkpoints'',
                  ''No checkpoint files missing in range [range]'',
                  ''No missing buckets referenced in range [range]''], None))"
    by (simp add: b) (simp add: exampleDeps_def)
  with exampleScanned_root show ?thesis by simp
qed


section \<open>ScanCheckpoints and its errors\<close>

lemma ListFiles_archives: "ListFiles a p w = (w', r) \<Longrightarrow> archives w' = archives w"
  by (auto simp: ListFiles_def emit_def split: option.splits)

lemma ListCategoryCheckpoints_archives:
  "ListCategoryCheckpoints a cat pth w = (w', r) \<Longrightarrow> archives w' = archives w"
  unfolding ListCategoryCheckpoints_def andThen_def
  by (cases "ListFiles a (path_Join [cat, pth]) w")
     (auto simp: ret_def dest: ListFiles_archives split: outcome.splits sum.splits)

lemma ListCategoryCheckpoints_fails:
  assumes "backend (archives w a) = Some b" "listErr b (path_Join [cat, pth]) = Some e"
  shows "\<exists>w'. ListCategoryCheckpoints a cat pth w = (w', Returns (Inl e))"
  using assms by (simp add: ListCategoryCheckpoints_def andThen_def ListFiles_def ret_def)

lemma NoteCheckpointFile_backend:
  "NoteCheckpointFile cat n p arch = Returns arch' \<Longrightarrow> backend arch' = backend arch"
  by (auto simp: NoteCheckpointFile_def split: option.splits)

lemma scan_step_length: "length (sc_workers (scan_step a i st)) = length (sc_workers st)"
proof (cases "sc_panicked st \<or> length (sc_workers st) \<le> i")
  case True
  then show ?thesis by (simp add: scan_step_def)
next
  case False
  then have e: "scan_step a i st = scan_worker_step a i (sc_workers st ! i) st"
    by (simp add: scan_step_def)
  show ?thesis unfolding e
    by (cases "(a, i, sc_workers st ! i, st)" rule: scan_worker_step.cases)
       (auto split: list.splits prod.splits outcome.splits)
qed

lemma scan_run_length:
  "length (sc_workers (fold (scan_step a) sched st)) = length (sc_workers st)"
  by (induction sched arbitrary: st) (simp_all add: scan_step_length)

lemma scan_held_not_done: "scan_held cat pth wk \<Longrightarrow> wk \<noteq> ScDone \<and> wk \<noteq> ScReceive"
  by (auto simp: scan_held_def)

lemma scan_step_inv:
  assumes inv: "scan_inv a cat pth st"
  shows "scan_inv a cat pth (scan_step a i st)"
proof (cases "sc_panicked st \<or> length (sc_workers st) \<le> i")
  case True
  then show ?thesis using inv by (simp add: scan_step_def)
next
  case False
  then have i: "i < length (sc_workers st)" and
    e: "scan_step a i st = scan_worker_step a i (sc_workers st ! i) st"
    by (simp_all add: scan_step_def)
  from inv obtain b err where b: "backend (archives (sc_world st) a) = Some b"
    "listErr b (path_Join [cat, pth]) = Some err"
    by (auto simp: scan_inv_def)
  from inv have pend: "(cat, pth) \<in> set (sc_req st)
           \<or> (\<exists>j < length (sc_workers st). scan_held cat pth (sc_workers st ! j))"
    and dn: "ScDone \<in> set (sc_workers st) \<longrightarrow> sc_req st = []"
    by (auto simp: scan_inv_def)
  have upd: "\<And>wk'. ScDone \<in> set ((sc_workers st)[i := wk']) \<Longrightarrow>
               wk' = ScDone \<or> ScDone \<in> set (sc_workers st)"
    using set_update_subset_insert[of "sc_workers st" i] by blast
  have keep: "\<And>wk'. (scan_held cat pth (sc_workers st ! i) \<longrightarrow> scan_held cat pth wk') \<Longrightarrow>
       \<exists>j < length (sc_workers st). scan_held cat pth (sc_workers st ! j) \<Longrightarrow>
       \<exists>j < length (sc_workers st). scan_held cat pth ((sc_workers st)[i := wk'] ! j)"
  proof -
    fix wk' assume s: "scan_held cat pth (sc_workers st ! i) \<longrightarrow> scan_held cat pth wk'"
      and "\<exists>j < length (sc_workers st). scan_held cat pth (sc_workers st ! j)"
    then obtain j where j: "j < length (sc_workers st)" "scan_held cat pth (sc_workers st ! j)"
      by blast
    show "\<exists>j < length (sc_workers st). scan_held cat pth ((sc_workers st)[i := wk'] ! j)"
    proof (cases "j = i")
      case True
      with j s i show ?thesis by (intro exI[of _ i]) simp
    next
      case False
      with j show ?thesis by (intro exI[of _ j]) simp
    qed
  qed
  show ?thesis
  proof (cases "sc_workers st ! i")
    case ScReceive
    show ?thesis
    proof (cases "sc_req st")
      case Nil
      with pend have p: "\<exists>j < length (sc_workers st). scan_held cat pth (sc_workers st ! j)"
        by simp
      have "\<exists>j < length (sc_workers st). scan_held cat pth ((sc_workers st)[i := ScDone] ! j)"
        by (rule keep[OF _ p]) (simp add: ScReceive scan_held_def)
      then show ?thesis
        unfolding e ScReceive using b Nil by (simp add: scan_inv_def)
    next
      case (Cons r rest)
      obtain c p where r: "r = (c, p)" by (cases r)
      from dn Cons have nd: "ScDone \<notin> set (sc_workers st)" by auto
      have nd': "ScDone \<notin> set ((sc_workers st)[i := ScList c p])"
        using upd[of "ScList c p"] nd by auto
      have "(cat, pth) \<in> set rest
           \<or> (\<exists>j < length (sc_workers st).
                 scan_held cat pth ((sc_workers st)[i := ScList c p] ! j))"
      proof (cases "(cat, pth) \<in> set (sc_req st)")
        case True
        then consider "(c, p) = (cat, pth)" | "(cat, pth) \<in> set rest"
          using Cons r by auto
        then show ?thesis
        proof cases
          case 1
          then have "scan_held cat pth ((sc_workers st)[i := ScList c p] ! i)"
            using i by (simp add: scan_held_def)
          with i show ?thesis by blast
        next
          case 2
          then show ?thesis by simp
        qed
      next
        case False
        with pend have p: "\<exists>j < length (sc_workers st). scan_held cat pth (sc_workers st ! j)"
          by simp
        have "\<exists>j < length (sc_workers st).
                 scan_held cat pth ((sc_workers st)[i := ScList c p] ! j)"
          by (rule keep[OF _ p]) (simp add: ScReceive scan_held_def)
        then show ?thesis by simp
      qed
      then show ?thesis
        unfolding e ScReceive using b Cons r nd' by (simp add: scan_inv_def)
    qed
  next
    case (ScList c p)
    obtain w' r where l: "ListCategoryCheckpoints a c p (sc_world st) = (w', r)"
      by (cases "ListCategoryCheckpoints a c p (sc_world st)")
    note ar = ListCategoryCheckpoints_archives[OF l]
    show ?thesis
    proof (cases r)
      case (Returns x)
      have h: "scan_held cat pth (sc_workers st ! i) \<longrightarrow> scan_held cat pth (ScSendErr c x)"
      proof
        assume "scan_held cat pth (sc_workers st ! i)"
        with ScList have cp: "c = cat" "p = pth" by (auto simp: scan_held_def)
        from ListCategoryCheckpoints_fails[OF b] l cp Returns have "x = Inl err" by auto
        with cp show "scan_held cat pth (ScSendErr c x)" by (simp add: scan_held_def)
      qed
      have nd: "ScDone \<in> set ((sc_workers st)[i := ScSendErr c x]) \<longrightarrow> sc_req st = []"
        using upd[of "ScSendErr c x"] dn by auto
      from pend keep[OF h] have
        "(cat, pth) \<in> set (sc_req st)
           \<or> (\<exists>j < length (sc_workers st).
                 scan_held cat pth ((sc_workers st)[i := ScSendErr c x] ! j))"
        by blast
      then show ?thesis
        unfolding e ScList using b l Returns ar nd by (simp add: scan_inv_def)
    qed (use inv b l ar in \<open>simp_all add: e ScList scan_inv_def\<close>)
  next
    case (ScSendErr c r)
    show ?thesis
    proof (cases "length (sc_errs st) < 10000")
      case True
      let ?wk = "ScRange c (case r of Inl e \<Rightarrow> None | Inr ns \<Rightarrow> Some ns)"
      have h: "scan_held cat pth (sc_workers st ! i) \<longrightarrow> scan_held cat pth ?wk"
        using ScSendErr by (auto simp: scan_held_def)
      have nd: "ScDone \<in> set ((sc_workers st)[i := ?wk]) \<longrightarrow> sc_req st = []"
        using upd[of ?wk] dn by auto
      from pend keep[OF h] have
        "(cat, pth) \<in> set (sc_req st)
           \<or> (\<exists>j < length (sc_workers st). scan_held cat pth ((sc_workers st)[i := ?wk] ! j))"
        by blast
      then show ?thesis
        unfolding e ScSendErr using b True nd by (simp add: scan_inv_def)
    next
      case False
      then show ?thesis unfolding e ScSendErr using inv by simp
    qed
  next
    case (ScRange c ch)
    show ?thesis
    proof (cases ch)
      case None
      then show ?thesis unfolding e ScRange using inv by simp
    next
      case (Some ns)
      show ?thesis
      proof (cases ns)
        case Nil
        have h: "scan_held cat pth (sc_workers st ! i) \<longrightarrow> scan_held cat pth ScReceive"
          using ScRange Some by (auto simp: scan_held_def)
        have nd: "ScDone \<in> set ((sc_workers st)[i := ScReceive]) \<longrightarrow> sc_req st = []"
          using upd[of ScReceive] dn by auto
        from pend keep[OF h] have
          "(cat, pth) \<in> set (sc_req st)
             \<or> (\<exists>j < length (sc_workers st).
                   scan_held cat pth ((sc_workers st)[i := ScReceive] ! j))"
          by blast
        then show ?thesis
          unfolding e ScRange Some Nil using b nd by (simp add: scan_inv_def)
      next
        case (Cons n rest)
        show ?thesis
        proof (cases "NoteCheckpointFile c n True (archives (sc_world st) a)")
          case (Returns arch)
          let ?wk = "ScRange c (Some rest)"
          have h: "scan_held cat pth (sc_workers st ! i) \<longrightarrow> scan_held cat pth ?wk"
            using ScRange Some by (auto simp: scan_held_def)
          have nd: "ScDone \<in> set ((sc_workers st)[i := ?wk]) \<longrightarrow> sc_req st = []"
            using upd[of ?wk] dn by auto
          from pend keep[OF h] have
            "(cat, pth) \<in> set (sc_req st)
               \<or> (\<exists>j < length (sc_workers st).
                     scan_held cat pth ((sc_workers st)[i := ?wk] ! j))"
            by blast
          then show ?thesis
            unfolding e ScRange Some Cons
            using b nd Returns NoteCheckpointFile_backend[OF Returns]
            by (simp add: scan_inv_def modify_archive_def)
        qed (use inv in \<open>simp_all add: e ScRange Some Cons scan_inv_def\<close>)
      qed
    qed
  next
    case ScDone
    then show ?thesis unfolding e using inv by simp
  qed
qed

lemma scan_run_inv:
  "scan_inv a cat pth st \<Longrightarrow> scan_inv a cat pth (fold (scan_step a) sched st)"
  by (induction sched arbitrary: st) (simp_all add: scan_step_inv)

lemma scan_inv_not_done:
  assumes "scan_inv a cat pth st" "sc_workers st \<noteq> []"
  shows "\<not> list_all (\<lambda>wk. wk = ScDone) (sc_workers st)"
proof
  assume all: "list_all (\<lambda>wk. wk = ScDone) (sc_workers st)"
  with assms(2) have d: "ScDone \<in> set (sc_workers st)"
    by (cases "sc_workers st") auto
  from assms(1) consider "(cat, pth) \<in> set (sc_req st)"
    | j where "j < length (sc_workers st)" "scan_held cat pth (sc_workers st ! j)"
    by (auto simp: scan_inv_def)
  then show False
  proof cases
    case 1
    with assms(1) d show False by (auto simp: scan_inv_def)
  next
    case 2
    with all have "sc_workers st ! j = ScDone" by (simp add: list_all_length)
    with 2(2) show False by (simp add: scan_held_def)
  qed
qed


lemma first_error_append:
  "first_error (es @ [e]) = (case first_error es of Some x \<Rightarrow> Some x | None \<Rightarrow> e)"
  by (induction es) (auto split: option.splits)

lemma scan_step_errs_inv:
  assumes inv: "errs_inv st"
  shows "errs_inv (scan_step a i st)"
proof (cases "sc_panicked st \<or> length (sc_workers st) \<le> i")
  case True
  then show ?thesis using inv by (simp add: scan_step_def)
next
  case False
  then have i: "i < length (sc_workers st)" and
    e: "scan_step a i st = scan_worker_step a i (sc_workers st ! i) st"
    by (simp_all add: scan_step_def)
  have keep: "\<And>wk'. (\<forall>cat. sc_workers st ! i = ScRange cat None \<longrightarrow> wk' = ScRange cat None) \<Longrightarrow>
       first_error (sc_errs st) \<noteq> None \<Longrightarrow>
       \<exists>j < length (sc_workers st). \<exists>cat. (sc_workers st)[i := wk'] ! j = ScRange cat None"
  proof -
    fix wk' assume s: "\<forall>cat. sc_workers st ! i = ScRange cat None \<longrightarrow> wk' = ScRange cat None"
      and "first_error (sc_errs st) \<noteq> None"
    with inv obtain j cat where j: "j < length (sc_workers st)"
      "sc_workers st ! j = ScRange cat None"
      by (auto simp: errs_inv_def)
    show "\<exists>j < length (sc_workers st). \<exists>cat. (sc_workers st)[i := wk'] ! j = ScRange cat None"
    proof (cases "j = i")
      case True
      with j s i show ?thesis by (intro exI[of _ i]) auto
    next
      case False
      with j show ?thesis by (intro exI[of _ j]) auto
    qed
  qed
  show ?thesis
  proof (cases "sc_workers st ! i")
    case ScReceive
    then show ?thesis unfolding e
      using keep[of ScDone] keep[of "ScList c p" for c p]
      by (auto simp: errs_inv_def split: list.splits)
  next
    case (ScList c p)
    then show ?thesis unfolding e
      using keep[of "ScSendErr c x" for x] inv
      by (auto simp: errs_inv_def split: prod.splits outcome.splits)
  next
    case (ScSendErr c r)
    show ?thesis
    proof (cases "length (sc_errs st) < 10000")
      case True
      show ?thesis
      proof (cases r)
        case (Inl err)
        have "(sc_workers st)[i := ScRange c None] ! i = ScRange c None" using i by simp
        with i show ?thesis unfolding e ScSendErr Inl using True
          by (auto simp: errs_inv_def)
      next
        case (Inr ns)
        then show ?thesis unfolding e ScSendErr using True ScSendErr
            keep[of "ScRange c (Some ns)"]
          by (auto simp: errs_inv_def first_error_append split: option.splits)
      qed
    next
      case False
      then show ?thesis unfolding e ScSendErr using inv by simp
    qed
  next
    case (ScRange c ch)
    show ?thesis
    proof (cases ch)
      case None
      then show ?thesis unfolding e ScRange using inv by simp
    next
      case (Some ns)
      then show ?thesis unfolding e ScRange
        using ScRange keep[of ScReceive] keep[of "ScRange c (Some rest)" for rest] inv
        by (cases ns) (auto simp: errs_inv_def split: outcome.splits)
    qed
  next
    case ScDone
    then show ?thesis unfolding e using inv by simp
  qed
qed

lemma scan_run_errs_inv:
  "errs_inv st \<Longrightarrow> errs_inv (fold (scan_step a) sched st)"
  by (induction sched arbitrary: st) (simp_all add: scan_step_errs_inv)

lemma errs_inv_done:
  assumes "errs_inv st" "list_all (\<lambda>wk. wk = ScDone) (sc_workers st)"
  shows "first_error (sc_errs st) = None"
proof (rule ccontr)
  assume "first_error (sc_errs st) \<noteq> None"
  with assms(1) obtain j cat where "j < length (sc_workers st)"
    "sc_workers st ! j = ScRange cat None"
    by (auto simp: errs_inv_def)
  with assms(2) show False by (auto simp: list_all_length)
qed

lemma ScanCheckpoints_returns_no_listing_error:
  assumes "GetRootHAS D a w = (w1, Returns (Inr state))"
    and "ScanCheckpoints D sched a rng w = (w', Returns res)"
  shows "res = None"
proof -
  let ?init = "\<lparr>sc_world = w1,
               sc_req = scan_requests (RangePaths D (rng_Clamp D rng (has_Range D state))),
               sc_errs = [], sc_workers = replicate concurrency ScReceive,
               sc_panicked = False\<rparr>"
  let ?fin = "fold (scan_step a) sched ?init"
  have "errs_inv ?init" by (simp add: errs_inv_def)
  then have inv: "errs_inv ?fin" by (rule scan_run_errs_inv)
  from assms(2) have "list_all (\<lambda>wk. wk = ScDone) (sc_workers ?fin)"
    and "res = first_error (sc_errs ?fin)"
    by (auto simp: ScanCheckpoints_def andThen_def assms(1) Let_def split: if_splits)
  with errs_inv_done[OF inv] show ?thesis by simp
qed

lemma ScanCheckpoints_hangs:
  assumes root: "GetRootHAS D a w = (w1, Returns (Inr state))"
    and b: "backend (archives w a) = Some b"
    and req: "cat \<in> set Categories"
      "pth \<in> set (RangePaths D (rng_Clamp D rng (has_Range D state)))"
    and fails: "listErr b (path_Join [cat, pth]) = Some e"
  shows "snd (ScanCheckpoints D sched a rng w) \<noteq> Returns res"
proof -
  let ?init = "\<lparr>sc_world = w1,
               sc_req = scan_requests (RangePaths D (rng_Clamp D rng (has_Range D state))),
               sc_errs = [], sc_workers = replicate concurrency ScReceive,
               sc_panicked = False\<rparr>"
  let ?fin = "fold (scan_step a) sched ?init"
  from root have "GetPathHAS D a rootHASPath w = (w1, Returns (Inr state))"
    by (simp add: GetRootHAS_def)
  from GetPathHAS_archives[OF this] have ar: "archives w1 = archives w" .
  have "(cat, pth) \<in> set (scan_requests (RangePaths D (rng_Clamp D rng (has_Range D state))))"
    using req by (auto simp: scan_requests_def)
  then have "scan_inv a cat pth ?init"
    using b fails ar by (simp add: scan_inv_def concurrency_def)
  then have inv: "scan_inv a cat pth ?fin" by (rule scan_run_inv)
  have "sc_workers ?fin \<noteq> []"
    using scan_run_length[of a sched ?init] by (auto simp: concurrency_def)
  with inv have "\<not> list_all (\<lambda>wk. wk = ScDone) (sc_workers ?fin)"
    by (rule scan_inv_not_done)
  then show ?thesis
    by (simp add: ScanCheckpoints_def andThen_def root Let_def)
qed


lemma path_Join_scp_dir: "path_Join [''scp'', ''00/00/00''] = ''scp/00/00/00''"
  by (simp add: path_Join_def path_Clean_def)

text \<open>
  C8. The code does not do what the claim says when a listing fails: on a store whose
  backend fails to list the directory of the \<^verbatim>\<open>scp\<close> files, \<^verbatim>\<open>ScanCheckpoints\<close> does
  not return under any schedule. The worker that received \<^verbatim>\<open>(nil, err)\<close> from
  \<^verbatim>\<open>ListCategoryCheckpoints\<close> sends the error and then ranges over the \<^verbatim>\<open>nil\<close>
  channel, so that \<^verbatim>\<open>wg.Wait()\<close> never returns and the loop that returns the first
  error is not reached.
\<close>

theorem ScanCheckpoints_blocks_on_failed_listing:
  "\<forall>sched res.
     snd (ScanCheckpoints exampleDeps sched 0 (63, 127) exampleListFails) \<noteq> Returns res"
proof (intro allI)
  fix sched res
  let ?b = "MakeMockBackend
              \<lparr>files := exampleFiles,
               listErr := (\<lambda>p. if p = ''scp/00/00/00''
                                then Some ''connection reset'' else None)\<rparr>"
  have root: "GetRootHAS exampleDeps 0 exampleListFails
     = (emit (EvGet 0 rootHASPath) exampleListFails, Returns (Inr ((63, 127), [])))"
    by (simp add: exampleListFails_def exampleFiles_def example_eval)
  have b: "backend (archives exampleListFails 0) = Some ?b"
    by (simp add: exampleListFails_def)
  have c: "''scp'' \<in> set Categories" by (simp add: Categories_def)
  have p: "''00/00/00'' \<in> set (RangePaths exampleDeps
             (rng_Clamp exampleDeps (63, 127) (has_Range exampleDeps ((63, 127), []))))"
    by (simp add: exampleDeps_def)
  have f: "listErr ?b (path_Join [''scp'', ''00/00/00'']) = Some ''connection reset''"
    by (simp add: path_Join_scp_dir)
  show "snd (ScanCheckpoints exampleDeps sched 0 (63, 127) exampleListFails) \<noteq> Returns res"
    by (rule ScanCheckpoints_hangs[OF root b c p f])
qed

section \<open>The worker pool of Mirror\<close>

lemma PutFile_trace:
  "PutFile a p c w = (w', r) \<Longrightarrow>
   trace w' = trace w @ (if backend (archives w a) = None then [] else [EvPut a p])"
  by (auto simp: PutFile_def emit_def modify_archive_def split: option.splits)

lemma PutFile_cases:
  "PutFile a p c w = (w', r) \<Longrightarrow>
   (r = Panics \<and> backend (archives w a) = None)
   \<or> ((\<exists>x. r = Returns x) \<and> backend (archives w a) \<noteq> None)"
  by (auto simp: PutFile_def split: option.splits)

lemma GetFile_cases':
  "GetFile a p w = (w', r) \<Longrightarrow>
   (r = Panics \<and> backend (archives w a) = None)
   \<or> ((\<exists>x. r = Returns x) \<and> backend (archives w a) \<noteq> None)"
  by (auto simp: GetFile_def split: option.splits)

lemma copyPath_trace:
  assumes "copyPath src dst p w = (w', r)"
  shows "\<exists>evs. trace w' = trace w @ evs \<and> set evs \<subseteq> {EvGet src p, EvPut dst p}
           \<and> (r = Returns None \<longrightarrow> EvPut dst p \<in> set evs)"
proof -
  obtain w1 r1 where g: "GetFile src p w = (w1, r1)" by (cases "GetFile src p w")
  note gt = GetFile_trace[OF g] and ga = GetFile_archives[OF g]
  from GetFile_cases'[OF g] show ?thesis
  proof (elim disjE conjE exE)
    assume "r1 = Panics" "backend (archives w src) = None"
    with assms g gt show ?thesis by (simp add: copyPath_def andThen_def)
  next
    fix x assume x: "r1 = Returns x" and b: "backend (archives w src) \<noteq> None"
    show ?thesis
    proof (cases x)
      case (Inl err)
      with assms g gt x b show ?thesis
        by (auto simp: copyPath_def andThen_def ret_def)
    next
      case (Inr rdr)
      with assms g x have p: "PutFile dst p rdr w1 = (w', r)"
        by (simp add: copyPath_def andThen_def)
      from PutFile_trace[OF p] PutFile_cases[OF p] gt b show ?thesis
        by (auto simp: ga)
    qed
  qed
qed

lemma PutPathHAS_trace:
  assumes "PutPathHAS D a p has w = (w', r)"
  shows "\<exists>evs. trace w' = trace w @ evs \<and> set evs \<subseteq> {EvPut a p}
           \<and> (r = Returns None \<longrightarrow> EvPut a p \<in> set evs)"
proof (cases "has_Encode D has")
  case (Inl err)
  with assms show ?thesis by (auto simp: PutPathHAS_def ret_def)
next
  case (Inr buf)
  with assms have p: "PutFile a p buf w = (w', r)" by (simp add: PutPathHAS_def)
  from PutFile_trace[OF p] PutFile_cases[OF p] show ?thesis by auto
qed

lemma GetPathHAS_trace':
  assumes "GetPathHAS D a p w = (w', r)"
  shows "\<exists>evs. trace w' = trace w @ evs \<and> set evs \<subseteq> {EvGet a p}"
  using GetPathHAS_trace[OF assms] by auto

lemma map_filter_append:
  "List.map_filter f (xs @ ys) = List.map_filter f xs @ List.map_filter f ys"
  by (simp add: List.map_filter_def)

lemma bucket_marks_append: "bucket_marks (xs @ ys) = bucket_marks xs @ bucket_marks ys"
  by (simp add: bucket_marks_def map_filter_append)

lemma bucket_copies_append: "bucket_copies (xs @ ys) = bucket_copies xs @ bucket_copies ys"
  by (simp add: bucket_copies_def map_filter_append)

lemma backend_events_no_marks:
  "list_all backend_event evs \<Longrightarrow> bucket_marks evs = [] \<and> bucket_copies evs = []"
  by (induction evs)
     (auto simp: bucket_marks_def bucket_copies_def List.map_filter_def backend_event_def
        split: event.splits)

lemma subset_backend_events:
  "set evs \<subseteq> {EvGet a p, EvPut b q} \<Longrightarrow> list_all backend_event evs"
  by (auto simp: list_all_iff backend_event_def)

lemma subset_backend_events1:
  "set evs \<subseteq> {EvGet a p} \<Longrightarrow> list_all backend_event evs"
  "set evs \<subseteq> {EvPut a p} \<Longrightarrow> list_all backend_event evs"
  by (auto simp: list_all_iff backend_event_def)


lemma fatal_on_error_cases:
  assumes "res = (w, r)" "trace w = trace (m_world st) @ evs" "m_stopped st = None"
  shows "(r = Returns None \<and>
          effect st (fatal_on_error res nxt i st) evs (m_bucketFetch st)
            ((m_workers st)[i := nxt]) (m_checkpoints st) False)
       \<or> (r \<noteq> Returns None \<and>
          effect st (fatal_on_error res nxt i st) evs (m_bucketFetch st)
            (m_workers st) (m_checkpoints st) True)"
  using assms
  by (auto simp: fatal_on_error_def effect_def split: outcome.splits option.splits)

lemma mirror_step_effect:
  fixes st :: "'has mirror_state" and D :: "('has, 'rng) deps"
  assumes run: "m_stopped st = None" and i: "i < length (m_workers st)"
  obtains
    (finish) "m_workers st ! i = MwReceive" "m_checkpoints st = []"
      "effect st (mirror_step D src dst i st) [] (m_bucketFetch st)
         ((m_workers st)[i := MwDone]) [] False"
  | (take) ix rest where "m_workers st ! i = MwReceive" "m_checkpoints st = ix # rest"
      "effect st (mirror_step D src dst i st) [] (m_bucketFetch st)
         ((m_workers st)[i := MwGetHAS ix]) rest False"
  | (fetched) ix has evs where "m_workers st ! i = MwGetHAS ix"
      "set evs \<subseteq> {EvGet src (CategoryCheckpointPath ''history'' ix)}"
      "effect st (mirror_step D src dst i st) (evs @ [EvFetched i ix (has_Buckets D has)])
         (m_bucketFetch st) ((m_workers st)[i := MwBuckets ix has (has_Buckets D has)])
         (m_checkpoints st) False"
  | (fetch_failed) ix evs where "m_workers st ! i = MwGetHAS ix"
      "set evs \<subseteq> {EvGet src (CategoryCheckpointPath ''history'' ix)}"
      "effect st (mirror_step D src dst i st) evs (m_bucketFetch st) (m_workers st)
         (m_checkpoints st) True"
  | (buckets_done) ix has where "m_workers st ! i = MwBuckets ix has []"
      "effect st (mirror_step D src dst i st) [] (m_bucketFetch st)
         ((m_workers st)[i := MwPutHAS ix has]) (m_checkpoints st) False"
  | (skip) ix has b rest where "m_workers st ! i = MwBuckets ix has (b # rest)"
      "map_of (m_bucketFetch st) b \<noteq> None"
      "effect st (mirror_step D src dst i st) [] (m_bucketFetch st)
         ((m_workers st)[i := MwBuckets ix has rest]) (m_checkpoints st) False"
  | (mark) ix has b rest where "m_workers st ! i = MwBuckets ix has (b # rest)"
      "map_of (m_bucketFetch st) b = None"
      "effect st (mirror_step D src dst i st) [EvMark i b]
         (AList.update b True (m_bucketFetch st))
         ((m_workers st)[i := MwCopyBucket ix has b rest]) (m_checkpoints st) False"
  | (copied) ix has b rest evs where "m_workers st ! i = MwCopyBucket ix has b rest"
      "set evs \<subseteq> {EvGet src (BucketPath b), EvPut dst (BucketPath b)}"
      "EvPut dst (BucketPath b) \<in> set evs"
      "effect st (mirror_step D src dst i st) (EvCopyBucket i b # evs) (m_bucketFetch st)
         ((m_workers st)[i := MwBuckets ix has rest]) (m_checkpoints st) False"
  | (copy_failed) ix has b rest evs where "m_workers st ! i = MwCopyBucket ix has b rest"
      "set evs \<subseteq> {EvGet src (BucketPath b), EvPut dst (BucketPath b)}"
      "effect st (mirror_step D src dst i st) (EvCopyBucket i b # evs) (m_bucketFetch st)
         (m_workers st) (m_checkpoints st) True"
  | (put) ix has evs where "m_workers st ! i = MwPutHAS ix has"
      "set evs \<subseteq> {EvPut dst (CategoryCheckpointPath ''history'' ix)}"
      "effect st (mirror_step D src dst i st) evs (m_bucketFetch st)
         ((m_workers st)[i := MwCategories ix Categories]) (m_checkpoints st) False"
  | (put_failed) ix has evs where "m_workers st ! i = MwPutHAS ix has"
      "set evs \<subseteq> {EvPut dst (CategoryCheckpointPath ''history'' ix)}"
      "effect st (mirror_step D src dst i st) evs (m_bucketFetch st) (m_workers st)
         (m_checkpoints st) True"
  | (categories_done) ix where "m_workers st ! i = MwCategories ix []"
      "effect st (mirror_step D src dst i st) [] (m_bucketFetch st)
         ((m_workers st)[i := MwReceive]) (m_checkpoints st) False"
  | (category) ix cat rest evs where "m_workers st ! i = MwCategories ix (cat # rest)"
      "set evs \<subseteq> {EvGet src (CategoryCheckpointPath cat ix),
                      EvPut dst (CategoryCheckpointPath cat ix)}"
      "EvPut dst (CategoryCheckpointPath cat ix) \<in> set evs"
      "effect st (mirror_step D src dst i st) evs (m_bucketFetch st)
         ((m_workers st)[i := MwCategories ix rest]) (m_checkpoints st) False"
  | (category_failed) ix cat rest evs where "m_workers st ! i = MwCategories ix (cat # rest)"
      "set evs \<subseteq> {EvGet src (CategoryCheckpointPath cat ix),
                      EvPut dst (CategoryCheckpointPath cat ix)}"
      "effect st (mirror_step D src dst i st) evs (m_bucketFetch st) (m_workers st)
         (m_checkpoints st) True"
  | (idle) "m_workers st ! i = MwDone" "mirror_step D src dst i st = st"
proof -
  have e: "mirror_step D src dst i st = mirror_worker_step D src dst i (m_workers st ! i) st"
    using run i by (simp add: mirror_step_def)
  show ?thesis
  proof (cases "m_workers st ! i")
    case MwReceive
    show ?thesis
    proof (cases "m_checkpoints st")
      case Nil
      show ?thesis
        by (rule finish[OF MwReceive Nil]) (simp add: e MwReceive Nil effect_def run)
    next
      case (Cons ix rest)
      show ?thesis
        by (rule take[OF MwReceive Cons]) (simp add: e MwReceive Cons effect_def run)
    qed
  next
    case (MwGetHAS ix)
    obtain w r where g: "GetCheckpointHAS D src ix (m_world st) = (w, r)"
      by (cases "GetCheckpointHAS D src ix (m_world st)")
    then have g': "GetPathHAS D src (CategoryCheckpointPath ''history'' ix) (m_world st) = (w, r)"
      by (simp add: GetCheckpointHAS_def)
    from GetPathHAS_trace'[OF g'] obtain evs where
      evs: "trace w = trace (m_world st) @ evs"
      "set evs \<subseteq> {EvGet src (CategoryCheckpointPath ''history'' ix)}" by blast
    show ?thesis
    proof (cases "\<exists>has. r = Returns (Inr has)")
      case True
      then obtain has where r: "r = Returns (Inr has)" ..
      show ?thesis
        by (rule fetched[OF MwGetHAS evs(2), of has])
           (simp add: e MwGetHAS g r effect_def run emit_def evs(1))
    next
      case False
      show ?thesis
        by (rule fetch_failed[OF MwGetHAS evs(2)])
           (use False in \<open>auto simp: e MwGetHAS g effect_def evs(1)
              split: outcome.splits sum.splits\<close>)
    qed
  next
    case (MwBuckets ix has bs)
    show ?thesis
    proof (cases bs)
      case Nil
      show ?thesis
        by (rule buckets_done[OF MwBuckets[unfolded Nil]])
           (simp add: e MwBuckets Nil effect_def run)
    next
      case (Cons b rest)
      show ?thesis
      proof (cases "map_of (m_bucketFetch st) b = None")
        case True
        show ?thesis
          by (rule mark[OF MwBuckets[unfolded Cons] True])
             (simp add: e MwBuckets Cons True effect_def run emit_def)
      next
        case False
        show ?thesis
          by (rule skip[OF MwBuckets[unfolded Cons] False])
             (use False in \<open>simp add: e MwBuckets Cons effect_def run\<close>)
      qed
    qed
  next
    case (MwCopyBucket ix has b rest)
    obtain w r where c: "copyPath src dst (BucketPath b) (emit (EvCopyBucket i b) (m_world st))
                          = (w, r)"
      by (cases "copyPath src dst (BucketPath b) (emit (EvCopyBucket i b) (m_world st))")
    from copyPath_trace[OF c] obtain evs where
      evs: "trace w = trace (m_world st) @ EvCopyBucket i b # evs"
      "set evs \<subseteq> {EvGet src (BucketPath b), EvPut dst (BucketPath b)}"
      "r = Returns None \<longrightarrow> EvPut dst (BucketPath b) \<in> set evs"
      by (auto simp: emit_def)
    from fatal_on_error_cases[OF c evs(1) run, of "MwBuckets ix has rest" i]
    show ?thesis
    proof (elim disjE conjE)
      assume "r = Returns None" and
        "effect st (fatal_on_error (copyPath src dst (BucketPath b)
            (emit (EvCopyBucket i b) (m_world st))) (MwBuckets ix has rest) i st)
          (EvCopyBucket i b # evs) (m_bucketFetch st)
          ((m_workers st)[i := MwBuckets ix has rest]) (m_checkpoints st) False"
      with evs show ?thesis
        by (intro copied[OF MwCopyBucket evs(2)]) (simp_all add: e MwCopyBucket)
    next
      assume "r \<noteq> Returns None" and
        "effect st (fatal_on_error (copyPath src dst (BucketPath b)
            (emit (EvCopyBucket i b) (m_world st))) (MwBuckets ix has rest) i st)
          (EvCopyBucket i b # evs) (m_bucketFetch st) (m_workers st) (m_checkpoints st) True"
      then show ?thesis
        by (intro copy_failed[OF MwCopyBucket evs(2)]) (simp_all add: e MwCopyBucket)
    qed
  next
    case (MwPutHAS ix has)
    obtain w r where c: "PutCheckpointHAS D dst ix has (m_world st) = (w, r)"
      by (cases "PutCheckpointHAS D dst ix has (m_world st)")
    then have "PutPathHAS D dst (CategoryCheckpointPath ''history'' ix) has (m_world st) = (w, r)"
      by (simp add: PutCheckpointHAS_def)
    from PutPathHAS_trace[OF this] obtain evs where
      evs: "trace w = trace (m_world st) @ evs"
      "set evs \<subseteq> {EvPut dst (CategoryCheckpointPath ''history'' ix)}"
      by blast
    from fatal_on_error_cases[OF c evs(1) run, of "MwCategories ix Categories" i]
    show ?thesis
    proof (elim disjE conjE)
      assume "r = Returns None" and
        "effect st (fatal_on_error (PutCheckpointHAS D dst ix has (m_world st))
            (MwCategories ix Categories) i st) evs (m_bucketFetch st)
          ((m_workers st)[i := MwCategories ix Categories]) (m_checkpoints st) False"
      then show ?thesis
        by (intro put[OF MwPutHAS evs(2)]) (simp_all add: e MwPutHAS)
    next
      assume "r \<noteq> Returns None" and
        "effect st (fatal_on_error (PutCheckpointHAS D dst ix has (m_world st))
            (MwCategories ix Categories) i st) evs (m_bucketFetch st)
          (m_workers st) (m_checkpoints st) True"
      then show ?thesis
        by (intro put_failed[OF MwPutHAS evs(2)]) (simp_all add: e MwPutHAS)
    qed
  next
    case (MwCategories ix cats)
    show ?thesis
    proof (cases cats)
      case Nil
      show ?thesis
        by (rule categories_done[OF MwCategories[unfolded Nil]])
           (simp add: e MwCategories Nil effect_def run)
    next
      case (Cons cat rest)
      obtain w r where c: "copyPath src dst (CategoryCheckpointPath cat ix) (m_world st) = (w, r)"
        by (cases "copyPath src dst (CategoryCheckpointPath cat ix) (m_world st)")
      from copyPath_trace[OF c] obtain evs where
        evs: "trace w = trace (m_world st) @ evs"
        "set evs \<subseteq> {EvGet src (CategoryCheckpointPath cat ix),
                        EvPut dst (CategoryCheckpointPath cat ix)}"
        "r = Returns None \<longrightarrow> EvPut dst (CategoryCheckpointPath cat ix) \<in> set evs"
        by blast
      from fatal_on_error_cases[OF c evs(1) run, of "MwCategories ix rest" i]
      show ?thesis
      proof (elim disjE conjE)
        assume "r = Returns None" and
          "effect st (fatal_on_error (copyPath src dst (CategoryCheckpointPath cat ix)
              (m_world st)) (MwCategories ix rest) i st) evs (m_bucketFetch st)
            ((m_workers st)[i := MwCategories ix rest]) (m_checkpoints st) False"
        with evs show ?thesis
          by (intro category[OF MwCategories[unfolded Cons] evs(2)])
             (simp_all add: e MwCategories Cons)
      next
        assume "r \<noteq> Returns None" and
          "effect st (fatal_on_error (copyPath src dst (CategoryCheckpointPath cat ix)
              (m_world st)) (MwCategories ix rest) i st) evs (m_bucketFetch st)
            (m_workers st) (m_checkpoints st) True"
        then show ?thesis
          by (intro category_failed[OF MwCategories[unfolded Cons] evs(2)])
             (simp_all add: e MwCategories Cons)
      qed
    qed
  next
    case MwDone
    show ?thesis by (rule idle[OF MwDone]) (simp add: e MwDone)
  qed
qed

lemma marks_single [simp]:
  "bucket_marks [EvMark i b] = [(i, b)]" "bucket_copies [EvMark i b] = []"
  "bucket_marks [EvCopyBucket i b] = []" "bucket_copies [EvCopyBucket i b] = [(i, b)]"
  "bucket_marks [EvFetched i ix bs] = []" "bucket_copies [EvFetched i ix bs] = []"
  "bucket_marks [] = []" "bucket_copies [] = []"
  by (simp_all add: bucket_marks_def bucket_copies_def List.map_filter_def)

lemma marks_Cons:
  "bucket_marks (ev # evs) = bucket_marks [ev] @ bucket_marks evs"
  "bucket_copies (ev # evs) = bucket_copies [ev] @ bucket_copies evs"
  using bucket_marks_append[of "[ev]" evs] bucket_copies_append[of "[ev]" evs] by simp_all

lemma copy_inv_quiet:
  assumes inv: "copy_inv n st" and run: "m_stopped st = None"
    and eff: "effect st st' evs (m_bucketFetch st) wks cps stopped"
    and quiet: "bucket_marks evs = []" "bucket_copies evs = []"
    and wk: "stopped \<or> wks = m_workers st
             \<or> (\<exists>wk'. wks = (m_workers st)[i := wk']
                   \<and> (\<forall>ix has b rest. wk' \<noteq> MwCopyBucket ix has b rest))"
  shows "copy_inv n st'"
proof -
  from inv have n: "n \<le> length (trace (m_world st))" by (simp add: copy_inv_def)
  from eff have t: "drop n (trace (m_world st')) = drop n (trace (m_world st)) @ evs"
    using n by (simp add: effect_def)
  have m: "bucket_marks (drop n (trace (m_world st'))) = bucket_marks (drop n (trace (m_world st)))"
    "bucket_copies (drop n (trace (m_world st'))) = bucket_copies (drop n (trace (m_world st)))"
    by (simp_all add: t bucket_marks_append bucket_copies_append quiet)
  have w: "m_stopped st' = None \<longrightarrow>
           (\<forall>j < length (m_workers st'). \<forall>ix has b rest.
              m_workers st' ! j = MwCopyBucket ix has b rest \<longrightarrow>
                (j, b) \<in> set (bucket_marks (drop n (trace (m_world st))))
                \<and> (j, b) \<notin> set (bucket_copies (drop n (trace (m_world st)))))"
  proof (intro impI allI)
    fix j ix has b rest
    assume s: "m_stopped st' = None" and j: "j < length (m_workers st')"
      and c: "m_workers st' ! j = MwCopyBucket ix has b rest"
    from s eff have ns: "\<not> stopped" by (simp add: effect_def)
    from eff have wks: "m_workers st' = wks" by (simp add: effect_def)
    from wk ns consider "wks = m_workers st"
      | wk' where "wks = (m_workers st)[i := wk']"
          "\<forall>ix has b rest. wk' \<noteq> MwCopyBucket ix has b rest"
      by blast
    then have "j < length (m_workers st) \<and> m_workers st ! j = MwCopyBucket ix has b rest"
    proof cases
      case 1
      with j c wks show ?thesis by simp
    next
      case 2
      with j c wks show ?thesis by (cases "j = i") auto
    qed
    with inv run show "(j, b) \<in> set (bucket_marks (drop n (trace (m_world st))))
                \<and> (j, b) \<notin> set (bucket_copies (drop n (trace (m_world st))))"
      by (simp add: copy_inv_def)
  qed
  from eff have bf: "m_bucketFetch st' = m_bucketFetch st"
    and len: "length (trace (m_world st)) \<le> length (trace (m_world st'))"
    by (simp_all add: effect_def)
  show ?thesis
    unfolding copy_inv_def m bf using inv w n len by (simp add: copy_inv_def)
qed

lemma backend_subset_quiet:
  "set evs \<subseteq> {EvGet a p, EvPut b q} \<Longrightarrow> bucket_marks evs = [] \<and> bucket_copies evs = []"
  "set evs \<subseteq> {EvGet a p} \<Longrightarrow> bucket_marks evs = [] \<and> bucket_copies evs = []"
  "set evs \<subseteq> {EvPut a p} \<Longrightarrow> bucket_marks evs = [] \<and> bucket_copies evs = []"
  using backend_events_no_marks subset_backend_events subset_backend_events1 by blast+

lemma mirror_step_copy_inv:
  assumes inv: "copy_inv n st"
  shows "copy_inv n (mirror_step D src dst i st)"
proof (cases "m_stopped st \<noteq> None \<or> length (m_workers st) \<le> i")
  case True
  then show ?thesis using inv by (simp add: mirror_step_def)
next
  case False
  then have run: "m_stopped st = None" and i: "i < length (m_workers st)" by simp_all
  from inv have n: "n \<le> length (trace (m_world st))" by (simp add: copy_inv_def)
  let ?T = "drop n (trace (m_world st))"
  from run i show ?thesis
  proof (cases rule: mirror_step_effect[where D = D and src = src and dst = dst])
    case finish
    show ?thesis by (rule copy_inv_quiet[OF inv run finish(3)]) auto
  next
    case (take ix rest)
    show ?thesis by (rule copy_inv_quiet[OF inv run take(3)]) auto
  next
    case (fetched ix has evs)
    show ?thesis
      by (rule copy_inv_quiet[OF inv run fetched(3)])
         (use backend_subset_quiet(2)[OF fetched(2)] in
           \<open>auto simp: bucket_marks_append bucket_copies_append\<close>)
  next
    case (fetch_failed ix evs)
    show ?thesis
      by (rule copy_inv_quiet[OF inv run fetch_failed(3)])
         (use backend_subset_quiet(2)[OF fetch_failed(2)] in auto)
  next
    case (buckets_done ix has)
    show ?thesis by (rule copy_inv_quiet[OF inv run buckets_done(2)]) auto
  next
    case (skip ix has b rest)
    show ?thesis by (rule copy_inv_quiet[OF inv run skip(3)]) auto
  next
    case (mark ix has b rest)
    let ?st' = "mirror_step D src dst i st"
    from mark(3) n have t: "drop n (trace (m_world ?st')) = ?T @ [EvMark i b]"
      by (simp add: effect_def)
    from mark(3) have bf: "m_bucketFetch ?st' = AList.update b True (m_bucketFetch st)"
      and wks: "m_workers ?st' = (m_workers st)[i := MwCopyBucket ix has b rest]"
      and len: "length (trace (m_world st)) \<le> length (trace (m_world ?st'))"
      by (simp_all add: effect_def)
    from inv have sub: "snd ` set (bucket_marks ?T) \<subseteq> dom (map_of (m_bucketFetch st))"
      and cm: "set (bucket_copies ?T) \<subseteq> set (bucket_marks ?T)"
      by (simp_all add: copy_inv_def)
    from mark(2) sub have fresh: "b \<notin> snd ` set (bucket_marks ?T)" by (auto simp: dom_def)
    then have nc: "(i, b) \<notin> set (bucket_copies ?T)" using cm by force
    have w: "\<forall>j < length (m_workers st). \<forall>ix' has' b' rest'.
              (m_workers st)[i := MwCopyBucket ix has b rest] ! j = MwCopyBucket ix' has' b' rest' \<longrightarrow>
                (j, b') \<in> set (bucket_marks ?T @ [(i, b)])
                \<and> (j, b') \<notin> set (bucket_copies ?T)"
    proof (intro allI impI)
      fix j ix' has' b' rest'
      assume j: "j < length (m_workers st)"
        and c: "(m_workers st)[i := MwCopyBucket ix has b rest] ! j = MwCopyBucket ix' has' b' rest'"
      show "(j, b') \<in> set (bucket_marks ?T @ [(i, b)]) \<and> (j, b') \<notin> set (bucket_copies ?T)"
      proof (cases "j = i")
        case True
        with c i nc show ?thesis by simp
      next
        case False
        with c have "m_workers st ! j = MwCopyBucket ix' has' b' rest'" by simp
        with inv run j show ?thesis by (simp add: copy_inv_def)
      qed
    qed
    show ?thesis
      unfolding copy_inv_def t bf wks
      using inv fresh w n len cm
      by (auto simp: copy_inv_def bucket_marks_append bucket_copies_append update_conv' dom_def)
  next
    case (copied ix has b rest evs)
    let ?st' = "mirror_step D src dst i st"
    from copied(4) n have t: "drop n (trace (m_world ?st')) = ?T @ EvCopyBucket i b # evs"
      by (simp add: effect_def)
    note q = backend_subset_quiet(1)[OF copied(2)]
    from copied(4) have bf: "m_bucketFetch ?st' = m_bucketFetch st"
      and wks: "m_workers ?st' = (m_workers st)[i := MwBuckets ix has rest]"
      and len: "length (trace (m_world st)) \<le> length (trace (m_world ?st'))"
      by (simp_all add: effect_def)
    from inv run i copied(1) have mine: "(i, b) \<in> set (bucket_marks ?T)"
      "(i, b) \<notin> set (bucket_copies ?T)"
      by (simp_all add: copy_inv_def)
    have w: "\<forall>j < length (m_workers st). \<forall>ix' has' b' rest'.
              (m_workers st)[i := MwBuckets ix has rest] ! j = MwCopyBucket ix' has' b' rest' \<longrightarrow>
                (j, b') \<in> set (bucket_marks ?T)
                \<and> (j, b') \<notin> set (bucket_copies ?T @ [(i, b)])"
    proof (intro allI impI)
      fix j ix' has' b' rest'
      assume j: "j < length (m_workers st)"
        and c: "(m_workers st)[i := MwBuckets ix has rest] ! j = MwCopyBucket ix' has' b' rest'"
      from c i have ne: "j \<noteq> i" by (cases "j = i") auto
      with c have "m_workers st ! j = MwCopyBucket ix' has' b' rest'" by simp
      with inv run j ne show "(j, b') \<in> set (bucket_marks ?T)
                \<and> (j, b') \<notin> set (bucket_copies ?T @ [(i, b)])"
        by (simp add: copy_inv_def)
    qed
    show ?thesis
      unfolding copy_inv_def t bf wks
      using inv mine w n len q
      by (auto simp: copy_inv_def bucket_marks_append bucket_copies_append
            marks_Cons[of "EvCopyBucket i b" evs])
  next
    case (copy_failed ix has b rest evs)
    let ?st' = "mirror_step D src dst i st"
    from copy_failed(3) n have t: "drop n (trace (m_world ?st')) = ?T @ EvCopyBucket i b # evs"
      by (simp add: effect_def)
    note q = backend_subset_quiet(1)[OF copy_failed(2)]
    from copy_failed(3) have bf: "m_bucketFetch ?st' = m_bucketFetch st"
      and st: "m_stopped ?st' \<noteq> None"
      and len: "length (trace (m_world st)) \<le> length (trace (m_world ?st'))"
      by (simp_all add: effect_def)
    from inv run i copy_failed(1) have mine: "(i, b) \<in> set (bucket_marks ?T)"
      "(i, b) \<notin> set (bucket_copies ?T)"
      by (simp_all add: copy_inv_def)
    show ?thesis
      unfolding copy_inv_def t bf
      using inv mine n len q st
      by (auto simp: copy_inv_def bucket_marks_append bucket_copies_append
            marks_Cons[of "EvCopyBucket i b" evs])
  next
    case (put ix has evs)
    show ?thesis
      by (rule copy_inv_quiet[OF inv run put(3)])
         (use backend_subset_quiet(3)[OF put(2)] in auto)
  next
    case (put_failed ix has evs)
    show ?thesis
      by (rule copy_inv_quiet[OF inv run put_failed(3)])
         (use backend_subset_quiet(3)[OF put_failed(2)] in auto)
  next
    case (categories_done ix)
    show ?thesis by (rule copy_inv_quiet[OF inv run categories_done(2)]) auto
  next
    case (category ix cat rest evs)
    show ?thesis
      by (rule copy_inv_quiet[OF inv run category(4)])
         (use backend_subset_quiet(1)[OF category(2)] in auto)
  next
    case (category_failed ix cat rest evs)
    show ?thesis
      by (rule copy_inv_quiet[OF inv run category_failed(3)])
         (use backend_subset_quiet(1)[OF category_failed(2)] in auto)
  next
    case idle
    then show ?thesis using inv by simp
  qed
qed

lemma mirror_run_copy_inv:
  "copy_inv n st \<Longrightarrow> copy_inv n (fold (mirror_step D src dst) sched st)"
  by (induction sched arbitrary: st) (simp_all add: mirror_step_copy_inv)

lemma fetched_all_mono:
  assumes "fetched_all T bf ix" "set T \<subseteq> set T'"
    "\<And>b. map_of bf b \<noteq> None \<Longrightarrow> map_of bf' b \<noteq> None"
  shows "fetched_all T' bf' ix"
  using assms unfolding fetched_all_def by (meson subsetD)

lemma stage_inv_mono:
  assumes "stage_inv D dst T bf wk" "set T \<subseteq> set T'"
    "\<And>b. map_of bf b \<noteq> None \<Longrightarrow> map_of bf' b \<noteq> None"
  shows "stage_inv D dst T' bf' wk"
proof (cases wk)
  case (MwCategories ix cats)
  with assms(1) have f: "fetched_all T bf ix"
    and c: "\<forall>cat \<in> set Categories.
            cat \<in> set cats \<or> EvPut dst (CategoryCheckpointPath cat ix) \<in> set T"
    by simp_all
  from fetched_all_mono[OF f assms(2,3)] c assms(2) show ?thesis
    unfolding MwCategories by auto
qed (use assms in \<open>auto 4 3\<close>)

lemma finished_mono:
  assumes "finished dst T bf chk" "set T \<subseteq> set T'"
    "\<And>b. map_of bf b \<noteq> None \<Longrightarrow> map_of bf' b \<noteq> None"
  shows "finished dst T' bf' chk"
  using assms fetched_all_mono[of T bf chk T' bf'] unfolding finished_def by blast

lemma stages_ok_update:
  assumes "stages_ok D dst T bf W" "set T \<subseteq> set T'"
    "\<And>b. map_of bf b \<noteq> None \<Longrightarrow> map_of bf' b \<noteq> None"
    "stage_inv D dst T' bf' wk'"
  shows "stages_ok D dst T' bf' (W[i := wk'])"
  unfolding stages_ok_def
proof (intro allI impI)
  fix j assume j: "j < length (W[i := wk'])"
  show "stage_inv D dst T' bf' (W[i := wk'] ! j)"
  proof (cases "j = i")
    case True
    with j assms(4) show ?thesis by simp
  next
    case False
    with j assms(1) have "stage_inv D dst T bf (W ! j)" by (simp add: stages_ok_def)
    from stage_inv_mono[OF this assms(2,3)] False show ?thesis by simp
  qed
qed

lemma covered_update:
  assumes cov: "covered dst T bf W cps Q" and i: "i < length W"
    and sub: "set T \<subseteq> set T'"
    and bf: "\<And>b. map_of bf b \<noteq> None \<Longrightarrow> map_of bf' b \<noteq> None"
    and cur: "\<And>c. current (W ! i) = Some c \<Longrightarrow> current wk' = Some c \<or> finished dst T' bf' c"
    and q: "cps' = cps \<or> (\<exists>ix. cps = ix # cps' \<and> current wk' = Some ix)"
  shows "covered dst T' bf' (W[i := wk']) cps' Q"
  unfolding covered_def
proof
  fix chk assume "chk \<in> set Q"
  with cov consider "chk \<in> set cps" | j where "j < length W" "current (W ! j) = Some chk"
    | "finished dst T bf chk"
    by (auto simp: covered_def)
  then show "chk \<in> set cps' \<or> (\<exists>j < length (W[i := wk']). current (W[i := wk'] ! j) = Some chk)
               \<or> finished dst T' bf' chk"
  proof cases
    case 1
    from q show ?thesis
    proof
      assume "cps' = cps"
      with 1 show ?thesis by simp
    next
      assume "\<exists>ix. cps = ix # cps' \<and> current wk' = Some ix"
      then obtain ix where ix: "cps = ix # cps'" "current wk' = Some ix" by blast
      show ?thesis
      proof (cases "chk = ix")
        case True
        with ix(2) i have "i < length (W[i := wk']) \<and> current (W[i := wk'] ! i) = Some chk"
          by simp
        then show ?thesis by blast
      next
        case False
        with 1 ix(1) show ?thesis by simp
      qed
    qed
  next
    case 2
    show ?thesis
    proof (cases "j = i")
      case True
      from cur[of chk] 2(2) True consider "current wk' = Some chk" | "finished dst T' bf' chk"
        by auto
      then show ?thesis
      proof cases
        case 1
        with i have "i < length (W[i := wk']) \<and> current (W[i := wk'] ! i) = Some chk" by simp
        then show ?thesis by blast
      next
        case 2
        then show ?thesis by simp
      qed
    next
      case False
      with 2 have "j < length (W[i := wk']) \<and> current (W[i := wk'] ! j) = Some chk" by simp
      then show ?thesis by blast
    qed
  next
    case 3
    from finished_mono[OF 3 sub bf] show ?thesis by simp
  qed
qed

lemma buckets_ok_update:
  assumes ok: "buckets_ok dst T bf W" and i: "i < length W"
    and sub: "set T \<subseteq> set T'"
    and new: "\<And>b. map_of bf' b \<noteq> None \<Longrightarrow>
               map_of bf b \<noteq> None \<or> (\<exists>ix has rest. wk' = MwCopyBucket ix has b rest)"
    and mine: "\<And>ix has b rest. W ! i = MwCopyBucket ix has b rest \<Longrightarrow>
               (\<exists>j. EvCopyBucket j b \<in> set T' \<and> EvPut dst (BucketPath b) \<in> set T')
               \<or> (\<exists>ix' has' rest'. wk' = MwCopyBucket ix' has' b rest')"
  shows "buckets_ok dst T' bf' (W[i := wk'])"
  unfolding buckets_ok_def
proof (intro allI impI)
  fix b assume "map_of bf' b \<noteq> None"
  from new[OF this] show "(\<exists>j. EvCopyBucket j b \<in> set T' \<and> EvPut dst (BucketPath b) \<in> set T')
        \<or> (\<exists>j < length (W[i := wk']). \<exists>ix has rest. W[i := wk'] ! j = MwCopyBucket ix has b rest)"
  proof
    assume "map_of bf b \<noteq> None"
    with ok consider j where "EvCopyBucket j b \<in> set T" "EvPut dst (BucketPath b) \<in> set T"
      | j ix has rest where "j < length W" "W ! j = MwCopyBucket ix has b rest"
      by (auto simp: buckets_ok_def)
    then show ?thesis
    proof cases
      case 1
      with sub show ?thesis by blast
    next
      case 2
      show ?thesis
      proof (cases "j = i")
        case True
        from mine[of ix has b rest] 2(2) True
        consider "\<exists>j. EvCopyBucket j b \<in> set T' \<and> EvPut dst (BucketPath b) \<in> set T'"
          | ix' has' rest' where "wk' = MwCopyBucket ix' has' b rest'"
          by auto
        then show ?thesis
        proof cases
          case 1
          then show ?thesis by simp
        next
          case 2
          with i have "i < length (W[i := wk']) \<and> W[i := wk'] ! i = MwCopyBucket ix' has' b rest'"
            by simp
          then show ?thesis by blast
        qed
      next
        case False
        with 2 have "j < length (W[i := wk']) \<and> W[i := wk'] ! j = MwCopyBucket ix has b rest"
          by simp
        then show ?thesis by blast
      qed
    qed
  next
    assume "\<exists>ix has rest. wk' = MwCopyBucket ix has b rest"
    then obtain ix has rest where "wk' = MwCopyBucket ix has b rest" by blast
    with i have "i < length (W[i := wk']) \<and> W[i := wk'] ! i = MwCopyBucket ix has b rest"
      by simp
    then show ?thesis by blast
  qed
qed

lemma done_ok_update:
  assumes "done_ok W cps" "wk' = MwDone \<Longrightarrow> cps = []"
    "cps' = cps \<or> (cps \<noteq> [] \<and> wk' \<noteq> MwDone)"
  shows "done_ok (W[i := wk']) cps'"
proof -
  have "MwDone \<in> set (W[i := wk']) \<Longrightarrow> wk' = MwDone \<or> MwDone \<in> set W"
    using set_update_subset_insert[of W i wk'] by blast
  with assms show ?thesis by (auto simp: done_ok_def)
qed


lemma progress_step:
  assumes inv: "progress_inv D dst n Q st" and run: "m_stopped st = None"
    and i: "i < length (m_workers st)"
    and eff: "effect st st' evs bf' ((m_workers st)[i := wk']) cps' False"
    and bf: "\<And>b. map_of (m_bucketFetch st) b \<noteq> None \<Longrightarrow> map_of bf' b \<noteq> None"
    and stage: "stage_inv D dst (drop n (trace (m_world st)) @ evs) bf' wk'"
    and cur: "\<And>c. current (m_workers st ! i) = Some c \<Longrightarrow>
                current wk' = Some c \<or> finished dst (drop n (trace (m_world st)) @ evs) bf' c"
    and q: "cps' = m_checkpoints st \<or> (\<exists>ix. m_checkpoints st = ix # cps' \<and> current wk' = Some ix)"
    and new: "\<And>b. map_of bf' b \<noteq> None \<Longrightarrow>
               map_of (m_bucketFetch st) b \<noteq> None \<or> (\<exists>ix has rest. wk' = MwCopyBucket ix has b rest)"
    and mine: "\<And>ix has b rest. m_workers st ! i = MwCopyBucket ix has b rest \<Longrightarrow>
               (\<exists>j. EvCopyBucket j b \<in> set (drop n (trace (m_world st)) @ evs)
                    \<and> EvPut dst (BucketPath b) \<in> set (drop n (trace (m_world st)) @ evs))
               \<or> (\<exists>ix' has' rest'. wk' = MwCopyBucket ix' has' b rest')"
    and dn: "wk' = MwDone \<Longrightarrow> m_checkpoints st = []"
  shows "progress_inv D dst n Q st'"
proof -
  let ?T = "drop n (trace (m_world st))"
  from inv have n: "n \<le> length (trace (m_world st))" by (simp add: progress_inv_def)
  from inv run have c1: "stages_ok D dst ?T (m_bucketFetch st) (m_workers st)"
    and c2: "covered dst ?T (m_bucketFetch st) (m_workers st) (m_checkpoints st) Q"
    and c3: "buckets_ok dst ?T (m_bucketFetch st) (m_workers st)"
    and c4: "done_ok (m_workers st) (m_checkpoints st)"
    by (simp_all add: progress_inv_def)
  from eff n have t: "drop n (trace (m_world st')) = ?T @ evs"
    and e: "m_bucketFetch st' = bf'" "m_workers st' = (m_workers st)[i := wk']"
      "m_checkpoints st' = cps'"
    and len: "n \<le> length (trace (m_world st'))"
    by (simp_all add: effect_def)
  have sub: "set ?T \<subseteq> set (?T @ evs)" by auto
  have d1: "stages_ok D dst (?T @ evs) bf' ((m_workers st)[i := wk'])"
    by (rule stages_ok_update[OF c1 sub bf stage])
  have d2: "covered dst (?T @ evs) bf' ((m_workers st)[i := wk']) cps' Q"
    by (rule covered_update[OF c2 i sub bf cur q])
  have d3: "buckets_ok dst (?T @ evs) bf' ((m_workers st)[i := wk'])"
    by (rule buckets_ok_update[OF c3 i sub new mine])
  have d4: "done_ok ((m_workers st)[i := wk']) cps'"
  proof (rule done_ok_update[OF c4 dn])
    from q show "cps' = m_checkpoints st \<or> (m_checkpoints st \<noteq> [] \<and> wk' \<noteq> MwDone)"
      by auto
  qed
  show ?thesis unfolding progress_inv_def t e using len d1 d2 d3 d4 by simp
qed

lemma progress_stop:
  assumes "progress_inv D dst n Q st" "effect st st' evs bf wks cps True"
  shows "progress_inv D dst n Q st'"
  using assms by (auto simp: progress_inv_def effect_def)

lemma mirror_step_progress_inv:
  assumes inv: "progress_inv D dst n Q st"
  shows "progress_inv D dst n Q (mirror_step D src dst i st)"
proof (cases "m_stopped st \<noteq> None \<or> length (m_workers st) \<le> i")
  case True
  then show ?thesis using inv by (simp add: mirror_step_def)
next
  case False
  then have run: "m_stopped st = None" and i: "i < length (m_workers st)" by simp_all
  let ?T = "drop n (trace (m_world st))"
  from inv run have c1: "stages_ok D dst ?T (m_bucketFetch st) (m_workers st)"
    by (simp add: progress_inv_def)
  then have mine: "stage_inv D dst ?T (m_bucketFetch st) (m_workers st ! i)"
    using i by (simp add: stages_ok_def)
  from run i show ?thesis
  proof (cases rule: mirror_step_effect[where D = D and src = src and dst = dst])
    case finish
    show ?thesis
      by (rule progress_step[OF inv run i finish(3)]) (simp_all add: finish)
  next
    case (take ix rest)
    show ?thesis
      by (rule progress_step[OF inv run i take(3)]) (simp_all add: take)
  next
    case (fetched ix has evs)
    show ?thesis
      by (rule progress_step[OF inv run i fetched(3)]) (auto simp: fetched)
  next
    case (fetch_failed ix evs)
    show ?thesis by (rule progress_stop[OF inv fetch_failed(3)])
  next
    case (buckets_done ix has)
    show ?thesis
      by (rule progress_step[OF inv run i buckets_done(2)])
         (use mine in \<open>simp_all add: buckets_done\<close>)
  next
    case (skip ix has b rest)
    show ?thesis
      by (rule progress_step[OF inv run i skip(3)])
         (use mine skip(2) in \<open>auto simp: skip(1)\<close>)
  next
    case (mark ix has b rest)
    show ?thesis
      by (rule progress_step[OF inv run i mark(3)])
         (use mine in \<open>auto simp: mark(1) update_conv' split: if_splits\<close>)
  next
    case (copied ix has b rest evs)
    show ?thesis
      by (rule progress_step[OF inv run i copied(4)])
         (use mine copied(3) in \<open>auto simp: copied(1)\<close>)
  next
    case (copy_failed ix has b rest evs)
    show ?thesis by (rule progress_stop[OF inv copy_failed(3)])
  next
    case (put ix has evs)
    show ?thesis
      by (rule progress_step[OF inv run i put(3)])
         (use mine in \<open>auto simp: put(1) fetched_all_def\<close>)
  next
    case (put_failed ix has evs)
    show ?thesis by (rule progress_stop[OF inv put_failed(3)])
  next
    case (categories_done ix)
    show ?thesis
      by (rule progress_step[OF inv run i categories_done(2)])
         (use mine in \<open>auto simp: categories_done(1) finished_def\<close>)
  next
    case (category ix cat rest evs)
    have "stage_inv D dst (?T @ evs) (m_bucketFetch st) (MwCategories ix rest)"
    proof -
      from mine category(1) have f: "fetched_all ?T (m_bucketFetch st) ix"
        and c: "\<forall>c \<in> set Categories. c \<in> set (cat # rest)
                  \<or> EvPut dst (CategoryCheckpointPath c ix) \<in> set ?T"
        by simp_all
      have "fetched_all (?T @ evs) (m_bucketFetch st) ix"
        by (rule fetched_all_mono[OF f]) auto
      with c category(3) show ?thesis by auto
    qed
    then show ?thesis
      by (intro progress_step[OF inv run i category(4)]) (auto simp: category(1))
  next
    case (category_failed ix cat rest evs)
    show ?thesis by (rule progress_stop[OF inv category_failed(3)])
  next
    case idle
    then show ?thesis using inv by simp
  qed
qed

lemma mirror_run_progress_inv:
  "progress_inv D dst n Q st \<Longrightarrow> progress_inv D dst n Q (fold (mirror_step D src dst) sched st)"
  by (induction sched arbitrary: st) (simp_all add: mirror_step_progress_inv)

lemma puts_step:
  assumes inv: "puts_inv dst n st" and n: "n \<le> length (trace (m_world st))"
    and i: "i < length (m_workers st)"
    and eff: "effect st st' evs bf wks cps stopped"
    and evs: "\<And>a p. EvPut a p \<in> set evs \<Longrightarrow> a = dst \<and> worker_path p"
    and wks: "wks = m_workers st
              \<or> (\<exists>wk'. wks = (m_workers st)[i := wk']
                    \<and> (\<forall>ix cats. wk' = MwCategories ix cats \<longrightarrow> set cats \<subseteq> set Categories))"
  shows "puts_inv dst n st'"
proof -
  from eff n have t: "drop n (trace (m_world st')) = drop n (trace (m_world st)) @ evs"
    and w: "m_workers st' = wks"
    by (simp_all add: effect_def)
  have c: "\<forall>j < length wks. \<forall>ix cats.
             wks ! j = MwCategories ix cats \<longrightarrow> set cats \<subseteq> set Categories"
  proof (intro allI impI)
    fix j ix cats assume j: "j < length wks" and m: "wks ! j = MwCategories ix cats"
    from wks show "set cats \<subseteq> set Categories"
    proof (elim disjE exE conjE)
      assume "wks = m_workers st"
      with inv j m show ?thesis by (simp add: puts_inv_def)
    next
      fix wk' assume e: "wks = (m_workers st)[i := wk']"
        and k: "\<forall>ix cats. wk' = MwCategories ix cats \<longrightarrow> set cats \<subseteq> set Categories"
      show ?thesis
      proof (cases "j = i")
        case True
        with e j m k show ?thesis by simp
      next
        case False
        with e j m inv show ?thesis by (simp add: puts_inv_def)
      qed
    qed
  qed
  show ?thesis
    unfolding puts_inv_def t w using inv evs c by (auto simp: puts_inv_def)
qed

lemma worker_path_bucket: "worker_path (BucketPath b)"
  by (auto simp: worker_path_def)

lemma worker_path_category: "cat \<in> set Categories \<Longrightarrow> worker_path (CategoryCheckpointPath cat ix)"
  by (auto simp: worker_path_def)

lemma history_in_Categories: "''history'' \<in> set Categories"
  by (simp add: Categories_def)

lemma mirror_step_puts_inv:
  assumes inv: "puts_inv dst n st" and n: "n \<le> length (trace (m_world st))"
  shows "puts_inv dst n (mirror_step D src dst i st)"
proof (cases "m_stopped st \<noteq> None \<or> length (m_workers st) \<le> i")
  case True
  then show ?thesis using inv by (simp add: mirror_step_def)
next
  case False
  then have run: "m_stopped st = None" and i: "i < length (m_workers st)" by simp_all
  from inv i have cats: "\<And>ix cats. m_workers st ! i = MwCategories ix cats \<Longrightarrow>
                           set cats \<subseteq> set Categories"
    by (simp add: puts_inv_def)
  note hp = worker_path_category[OF history_in_Categories]
  from run i show ?thesis
  proof (cases rule: mirror_step_effect[where D = D and src = src and dst = dst])
    case finish
    show ?thesis by (rule puts_step[OF inv n i finish(3)]) auto
  next
    case (take ix rest)
    show ?thesis by (rule puts_step[OF inv n i take(3)]) auto
  next
    case (fetched ix has evs)
    show ?thesis by (rule puts_step[OF inv n i fetched(3)]) (use fetched(2) in auto)
  next
    case (fetch_failed ix evs)
    show ?thesis by (rule puts_step[OF inv n i fetch_failed(3)]) (use fetch_failed(2) in auto)
  next
    case (buckets_done ix has)
    show ?thesis by (rule puts_step[OF inv n i buckets_done(2)]) auto
  next
    case (skip ix has b rest)
    show ?thesis by (rule puts_step[OF inv n i skip(3)]) auto
  next
    case (mark ix has b rest)
    show ?thesis by (rule puts_step[OF inv n i mark(3)]) auto
  next
    case (copied ix has b rest evs)
    show ?thesis
      by (rule puts_step[OF inv n i copied(4)])
         (use copied(2) worker_path_bucket in auto)
  next
    case (copy_failed ix has b rest evs)
    show ?thesis
      by (rule puts_step[OF inv n i copy_failed(3)])
         (use copy_failed(2) worker_path_bucket in auto)
  next
    case (put ix has evs)
    show ?thesis
      by (rule puts_step[OF inv n i put(3)]) (use put(2) hp in auto)
  next
    case (put_failed ix has evs)
    show ?thesis
      by (rule puts_step[OF inv n i put_failed(3)]) (use put_failed(2) hp in auto)
  next
    case (categories_done ix)
    show ?thesis by (rule puts_step[OF inv n i categories_done(2)]) auto
  next
    case (category ix cat rest evs)
    from cats[OF category(1)] have c: "cat \<in> set Categories" "set rest \<subseteq> set Categories"
      by auto
    show ?thesis
      by (rule puts_step[OF inv n i category(4)])
         (use category(2) worker_path_category[OF c(1)] c(2) in auto)
  next
    case (category_failed ix cat rest evs)
    from cats[OF category_failed(1)] have c: "cat \<in> set Categories" by auto
    show ?thesis
      by (rule puts_step[OF inv n i category_failed(3)])
         (use category_failed(2) worker_path_category[OF c] in auto)
  next
    case idle
    then show ?thesis using inv by simp
  qed
qed

lemma mirror_step_trace_grows:
  "length (trace (m_world st)) \<le> length (trace (m_world (mirror_step D src dst i st)))"
proof (cases "m_stopped st \<noteq> None \<or> length (m_workers st) \<le> i")
  case True
  then show ?thesis by (simp add: mirror_step_def)
next
  case False
  then have run: "m_stopped st = None" and i: "i < length (m_workers st)" by simp_all
  from run i show ?thesis
    by (cases rule: mirror_step_effect[where D = D and src = src and dst = dst])
       (simp_all add: effect_def)
qed

lemma mirror_run_puts_inv:
  "puts_inv dst n st \<Longrightarrow> n \<le> length (trace (m_world st)) \<Longrightarrow>
   puts_inv dst n (fold (mirror_step D src dst) sched st)"
proof (induction sched arbitrary: st)
  case Nil
  then show ?case by simp
next
  case (Cons i sched)
  have "n \<le> length (trace (m_world (mirror_step D src dst i st)))"
    using Cons.prems(2) mirror_step_trace_grows[of st D src dst i] by simp
  with Cons.IH[OF mirror_step_puts_inv[OF Cons.prems]] show ?case by simp
qed

lemma mirror_step_length:
  "length (m_workers (mirror_step D src dst i st)) = length (m_workers st)"
proof (cases "m_stopped st \<noteq> None \<or> length (m_workers st) \<le> i")
  case True
  then show ?thesis by (simp add: mirror_step_def)
next
  case False
  then have run: "m_stopped st = None" and i: "i < length (m_workers st)" by simp_all
  from run i show ?thesis
    by (cases rule: mirror_step_effect[where D = D and src = src and dst = dst])
       (simp_all add: effect_def)
qed

lemma mirror_run_length:
  "length (m_workers (fold (mirror_step D src dst) sched st)) = length (m_workers st)"
  by (induction sched arbitrary: st) (simp_all add: mirror_step_length)

lemma worker_path_not_root: "worker_path p \<Longrightarrow> p \<noteq> rootHASPath"
proof
  assume w: "worker_path p" and r: "p = rootHASPath"
  from w consider b where "p = BucketPath b"
    | cat ix where "cat \<in> set Categories" "p = CategoryCheckpointPath cat ix"
    by (auto simp: worker_path_def)
  then show False
  proof cases
    case 1
    with r show False by (simp add: BucketPath_explicit rootHASPath_def)
  next
    case 2
    from 2(2) r Categories_cases[OF 2(1)] show False
      unfolding CategoryCheckpointPath_explicit[OF 2(1)] rootHASPath_def by auto
  qed
qed

lemma mirror_step_trace_prefix:
  "\<exists>evs. trace (m_world (mirror_step D src dst i st)) = trace (m_world st) @ evs"
proof (cases "m_stopped st \<noteq> None \<or> length (m_workers st) \<le> i")
  case True
  then show ?thesis by (simp add: mirror_step_def)
next
  case False
  then have run: "m_stopped st = None" and i: "i < length (m_workers st)" by simp_all
  from run i show ?thesis
    by (cases rule: mirror_step_effect[where D = D and src = src and dst = dst])
       (simp_all add: effect_def)
qed

lemma mirror_run_trace_prefix:
  "\<exists>evs. trace (m_world (fold (mirror_step D src dst) sched st)) = trace (m_world st) @ evs"
proof (induction sched arbitrary: st)
  case Nil
  show ?case by simp
next
  case (Cons i sched)
  from mirror_step_trace_prefix[of D src dst i st] obtain e1 where
    1: "trace (m_world (mirror_step D src dst i st)) = trace (m_world st) @ e1" by blast
  from Cons.IH[of "mirror_step D src dst i st"] obtain e2 where
    "trace (m_world (fold (mirror_step D src dst) sched (mirror_step D src dst i st)))
       = trace (m_world (mirror_step D src dst i st)) @ e2" by blast
  with 1 show ?case by simp
qed


text \<open>The three ways in which \<^verbatim>\<open>Mirror\<close> ends.\<close>

lemma Mirror_cases:
  fixes D :: "('has, 'rng) deps"
  obtains
    (no_root) evs where
      "trace (fst (Mirror D sched src dst rng w)) = trace w @ evs"
      "set evs \<subseteq> {EvGet src rootHASPath}"
      "snd (Mirror D sched src dst rng w) \<noteq> Returns None"
  | (unfinished) w1 rootHAS evs where
      "GetRootHAS D src w = (w1, Returns (Inr rootHAS))"
      "trace w1 = trace w @ evs" "set evs \<subseteq> {EvGet src rootHASPath}"
      "fst (Mirror D sched src dst rng w)
         = m_world (mirror_pool D sched src dst
              (rng_Checkpoints D (rng_Clamp D rng (has_Range D rootHAS))) w1 :: 'has mirror_state)"
      "snd (Mirror D sched src dst rng w) \<noteq> Returns None"
  | (finished) w1 rootHAS evs where
      "GetRootHAS D src w = (w1, Returns (Inr rootHAS))"
      "trace w1 = trace w @ evs" "set evs \<subseteq> {EvGet src rootHASPath}"
      "m_stopped (mirror_pool D sched src dst
              (rng_Checkpoints D (rng_Clamp D rng (has_Range D rootHAS))) w1 :: 'has mirror_state)
         = None"
      "list_all (\<lambda>wk. wk = MwDone) (m_workers (mirror_pool D sched src dst
              (rng_Checkpoints D (rng_Clamp D rng (has_Range D rootHAS))) w1 :: 'has mirror_state))"
      "Mirror D sched src dst rng w
         = PutRootHAS D dst rootHAS (m_world (mirror_pool D sched src dst
              (rng_Checkpoints D (rng_Clamp D rng (has_Range D rootHAS))) w1 :: 'has mirror_state))"
proof -
  obtain w1 r1 where g: "GetRootHAS D src w = (w1, r1)" by (cases "GetRootHAS D src w")
  then have g': "GetPathHAS D src rootHASPath w = (w1, r1)" by (simp add: GetRootHAS_def)
  from GetPathHAS_trace'[OF g'] obtain evs where
    evs: "trace w1 = trace w @ evs" "set evs \<subseteq> {EvGet src rootHASPath}" by blast
  show ?thesis
  proof (cases "\<exists>rootHAS. r1 = Returns (Inr rootHAS)")
    case False
    have "fst (Mirror D sched src dst rng w) = w1 \<and> snd (Mirror D sched src dst rng w) \<noteq> Returns None"
      using False g
      by (cases r1) (auto simp: Mirror_def andThen_def ret_def split: sum.splits)
    with evs show ?thesis by (intro no_root[of evs]) simp_all
  next
    case True
    then obtain rootHAS where r: "r1 = Returns (Inr rootHAS)" ..
    let ?pool = "mirror_pool D sched src dst
              (rng_Checkpoints D (rng_Clamp D rng (has_Range D rootHAS))) w1 :: 'has mirror_state"
    show ?thesis
    proof (cases "m_stopped ?pool = None \<and> list_all (\<lambda>wk. wk = MwDone) (m_workers ?pool)")
      case True
      then have "Mirror D sched src dst rng w = PutRootHAS D dst rootHAS (m_world ?pool)"
        using g r by (simp add: Mirror_def andThen_def Let_def)
      with True evs g r show ?thesis by (intro finished[of w1 rootHAS evs]) simp_all
    next
      case False
      then have "fst (Mirror D sched src dst rng w) = m_world ?pool
                 \<and> snd (Mirror D sched src dst rng w) \<noteq> Returns None"
        using g r
        by (auto simp: Mirror_def andThen_def Let_def split: option.splits outcome.splits)
      with evs g r show ?thesis by (intro unfinished[of w1 rootHAS evs]) simp_all
    qed
  qed
qed

lemma pool_initial_invs:
  fixes D :: "('has, 'rng) deps"
  defines "st0 \<equiv> \<lambda>Q w1. \<lparr>m_world = w1, m_checkpoints = Q, m_bucketFetch = [],
       m_workers = replicate concurrency (MwReceive :: 'has mirror_worker), m_stopped = None\<rparr>"
  shows "copy_inv (length (trace w1)) (st0 Q w1)"
    and "progress_inv D dst (length (trace w1)) Q (st0 Q w1)"
    and "puts_inv dst (length (trace w1)) (st0 Q w1)"
  unfolding st0_def
  by (simp_all add: copy_inv_def progress_inv_def puts_inv_def stages_ok_def covered_def
        buckets_ok_def done_ok_def)

lemma pool_invs:
  fixes D :: "('has, 'rng) deps"
  defines "pool \<equiv> \<lambda>sched src dst Q w1. (mirror_pool D sched src dst Q w1 :: 'has mirror_state)"
  shows "copy_inv (length (trace w1)) (pool sched src dst Q w1)"
    and "progress_inv D dst (length (trace w1)) Q (pool sched src dst Q w1)"
    and "puts_inv dst (length (trace w1)) (pool sched src dst Q w1)"
    and "\<exists>T. trace (m_world (pool sched src dst Q w1)) = trace w1 @ T"
    and "length (m_workers (pool sched src dst Q w1)) = concurrency"
  unfolding pool_def mirror_pool_def
  using mirror_run_copy_inv[OF pool_initial_invs(1)]
    mirror_run_progress_inv[OF pool_initial_invs(2)]
    mirror_run_puts_inv[OF pool_initial_invs(3)]
    mirror_run_trace_prefix[of D src dst sched
       "\<lparr>m_world = w1, m_checkpoints = Q, m_bucketFetch = [],
         m_workers = replicate concurrency MwReceive, m_stopped = None\<rparr>"]
    mirror_run_length[of D src dst sched
       "\<lparr>m_world = w1, m_checkpoints = Q, m_bucketFetch = [],
         m_workers = replicate concurrency MwReceive, m_stopped = None\<rparr>"]
  by simp_all

section \<open>Mirror: one copy per bucket, and the root manifest last\<close>

lemma root_events_quiet:
  "set evs \<subseteq> {EvGet a p} \<Longrightarrow> bucket_marks evs = [] \<and> bucket_copies evs = []"
  by (rule backend_subset_quiet(2))

lemma distinct_copies_hashes:
  assumes "distinct (map snd marks)" "distinct copies" "set copies \<subseteq> set marks"
  shows "distinct (map snd copies)"
proof -
  from assms(1) have "inj_on snd (set marks)" by (simp add: distinct_map)
  from this assms(3) have "inj_on snd (set copies)" by (rule inj_on_subset)
  with assms(2) show ?thesis by (simp add: distinct_map)
qed

text \<open>
  C2. In every run of \<^verbatim>\<open>Mirror\<close>, under every schedule of its workers and whatever
  the outcome, \<^verbatim>\<open>copyPath\<close> is called for the path of a bucket at most once per hash,
  each hash is inserted into \<^verbatim>\<open>bucketFetch\<close> by at most one worker, and a call of
  \<^verbatim>\<open>copyPath\<close> for a bucket is made by the worker that inserted its hash.
\<close>

theorem Mirror_copies_each_bucket_once:
  fixes D :: "('has, 'rng) deps"
  shows "distinct (map snd (bucket_copies (new_events w (fst (Mirror D sched src dst rng w)))))
       \<and> distinct (map snd (bucket_marks (new_events w (fst (Mirror D sched src dst rng w)))))
       \<and> set (bucket_copies (new_events w (fst (Mirror D sched src dst rng w))))
           \<subseteq> set (bucket_marks (new_events w (fst (Mirror D sched src dst rng w))))"
proof -
  have pool: "distinct (map snd (bucket_copies (evs @ T @ evs')))
       \<and> distinct (map snd (bucket_marks (evs @ T @ evs')))
       \<and> set (bucket_copies (evs @ T @ evs')) \<subseteq> set (bucket_marks (evs @ T @ evs'))"
    if inv: "copy_inv (length (trace (w1 :: world))) (st :: 'has mirror_state)"
      and T: "trace (m_world st) = trace w1 @ T"
      and q: "bucket_marks evs = [] \<and> bucket_copies evs = []"
        "bucket_marks evs' = [] \<and> bucket_copies evs' = []"
    for w1 st T evs evs'
  proof -
    from T have d: "drop (length (trace w1)) (trace (m_world st)) = T" by simp
    from inv have 1: "distinct (map snd (bucket_marks T))" and 2: "distinct (bucket_copies T)"
      and 3: "set (bucket_copies T) \<subseteq> set (bucket_marks T)"
      unfolding copy_inv_def d by simp_all
    from distinct_copies_hashes[OF 1 2 3] 1 3 q show ?thesis
      by (simp add: bucket_marks_append bucket_copies_append)
  qed
  show ?thesis
  proof (cases rule: Mirror_cases[of D sched src dst rng w])
    case (no_root evs)
    from no_root(1) have "new_events w (fst (Mirror D sched src dst rng w)) = evs"
      by (simp add: new_events_def)
    with root_events_quiet[OF no_root(2)] show ?thesis by simp
  next
    case (unfinished w1 rootHAS evs)
    let ?pool = "mirror_pool D sched src dst
              (rng_Checkpoints D (rng_Clamp D rng (has_Range D rootHAS))) w1 :: 'has mirror_state"
    from pool_invs(4)[of D sched src dst _ w1] obtain T where
      T: "trace (m_world ?pool) = trace w1 @ T" by blast
    have "new_events w (fst (Mirror D sched src dst rng w)) = evs @ T @ []"
      by (simp add: new_events_def unfinished(4) T unfinished(2))
    with pool[OF pool_invs(1) T root_events_quiet[OF unfinished(3)], of "[]"]
    show ?thesis by simp
  next
    case (finished w1 rootHAS evs)
    let ?pool = "mirror_pool D sched src dst
              (rng_Checkpoints D (rng_Clamp D rng (has_Range D rootHAS))) w1 :: 'has mirror_state"
    from pool_invs(4)[of D sched src dst _ w1] obtain T where
      T: "trace (m_world ?pool) = trace w1 @ T" by blast
    obtain w' r where p: "PutRootHAS D dst rootHAS (m_world ?pool) = (w', r)"
      by (cases "PutRootHAS D dst rootHAS (m_world ?pool)")
    then have "PutPathHAS D dst rootHASPath rootHAS (m_world ?pool) = (w', r)"
      by (simp add: PutRootHAS_def)
    from PutPathHAS_trace[OF this] obtain evs' where
      e: "trace w' = trace (m_world ?pool) @ evs'" "set evs' \<subseteq> {EvPut dst rootHASPath}"
      by blast
    have "new_events w (fst (Mirror D sched src dst rng w)) = evs @ T @ evs'"
      by (simp add: new_events_def finished(6) p e(1) T finished(2))
    with pool[OF pool_invs(1) T root_events_quiet[OF finished(3)]
        backend_subset_quiet(3)[OF e(2)]]
    show ?thesis by simp
  qed
qed





subsection \<open>Two runs of Mirror\<close>





















section \<open>Repair\<close>

lemma puts_of_simps [simp]:
  "puts_of [] = []"
  "puts_of (EvGet a p # evs) = puts_of evs"
  "puts_of (EvPut a p # evs) = (a, p) # puts_of evs"
  "puts_of (EvList a p # evs) = puts_of evs"
  "puts_of (EvFetched i ix bs # evs) = puts_of evs"
  "puts_of (EvMark i b # evs) = puts_of evs"
  "puts_of (EvCopyBucket i b # evs) = puts_of evs"
  by (simp_all add: puts_of_def List.map_filter_simps)

lemma puts_of_append [simp]: "puts_of (xs @ ys) = puts_of xs @ puts_of ys"
  by (simp add: puts_of_def map_filter_append)

lemma puts_of_member: "EvPut a p \<in> set evs \<longleftrightarrow> (a, p) \<in> set (puts_of evs)"
  by (induction evs) (auto split: event.splits simp: puts_of_def List.map_filter_simps)

lemma quiet_copies_only: "puts_of evs = [] \<Longrightarrow> copies_only src dst prev evs"
  by (induction evs arbitrary: prev) (auto split: event.splits)

lemma copies_only_append:
  "copies_only src dst prev (xs @ ys)
   \<longleftrightarrow> copies_only src dst prev xs
       \<and> copies_only src dst (if xs = [] then prev else Some (last xs)) ys"
  by (induction xs arbitrary: prev) auto

lemma copies_only_any_prev: "copies_only src dst None evs \<Longrightarrow> copies_only src dst prev evs"
  by (cases evs) (auto split: event.splits)

lemma copies_only_appendI:
  "copies_only src dst None xs \<Longrightarrow> copies_only src dst None ys \<Longrightarrow>
   copies_only src dst None (xs @ ys)"
  by (simp add: copies_only_append copies_only_any_prev)

lemma quietly_refl: "quietly w w"
  by (simp add: quietly_def)

lemma quietly_trans: "quietly w w' \<Longrightarrow> quietly w' w'' \<Longrightarrow> quietly w w''"
  by (auto simp: quietly_def)

lemma quietly_same: "trace w' = trace w \<Longrightarrow> quietly w w'"
  by (simp add: quietly_def)

lemma GetFile_quiet: "quietly w (fst (GetFile a p w))"
  by (auto simp: quietly_def GetFile_def emit_def split: option.splits)

lemma ListFiles_quiet: "quietly w (fst (ListFiles a p w))"
  by (auto simp: quietly_def ListFiles_def emit_def split: option.splits)

lemma andThen_quiet:
  assumes "quietly w (fst (m w))" and "\<And>x v. quietly v (fst (f x v))"
  shows "quietly w (fst (andThen m f w))"
proof (cases "m w")
  case (Pair w1 r)
  with assms(1) have q: "quietly w w1" by simp
  show ?thesis
  proof (cases r)
    case (Returns x)
    with Pair have "andThen m f w = f x w1" by (simp add: andThen_def)
    with quietly_trans[OF q assms(2)[of w1 x]] show ?thesis by simp
  qed (use Pair q in \<open>simp_all add: andThen_def\<close>)
qed

lemma ret_quiet: "quietly w (fst (ret x w))"
  by (simp add: ret_def quietly_refl)

lemma GetPathHAS_quiet: "quietly w (fst (GetPathHAS D a p w))"
  unfolding GetPathHAS_def
  by (rule andThen_quiet) (auto simp: GetFile_quiet ret_quiet split: sum.splits)

lemma ListCategoryCheckpoints_quiet: "quietly w (fst (ListCategoryCheckpoints a cat pth w))"
  unfolding ListCategoryCheckpoints_def
  by (rule andThen_quiet) (auto simp: ListFiles_quiet ret_quiet split: sum.splits)

lemma ListAllBucketHashes_quiet: "quietly w (fst (ListAllBucketHashes a w))"
  unfolding ListAllBucketHashes_def
  by (rule andThen_quiet)
     (auto simp: ListFiles_quiet ret_quiet quietly_refl split: sum.splits option.splits)

lemma scan_step_quiet: "quietly (sc_world st) (sc_world (scan_step a i st))"
proof (cases "sc_panicked st \<or> length (sc_workers st) \<le> i")
  case True
  then show ?thesis by (simp add: scan_step_def quietly_refl)
next
  case False
  then have s: "scan_step a i st = scan_worker_step a i (sc_workers st ! i) st"
    by (simp add: scan_step_def)
  show ?thesis
  proof (cases "sc_workers st ! i")
    case ScReceive
    with s show ?thesis by (auto simp: quietly_refl split: list.splits)
  next
    case (ScList cat pth)
    obtain w' r where l: "ListCategoryCheckpoints a cat pth (sc_world st) = (w', r)"
      by (cases "ListCategoryCheckpoints a cat pth (sc_world st)")
    with ListCategoryCheckpoints_quiet[of "sc_world st" a cat pth]
    have "quietly (sc_world st) w'" by simp
    with s ScList l show ?thesis by (auto split: outcome.splits)
  next
    case (ScSendErr cat r)
    with s show ?thesis by (auto simp: quietly_refl)
  next
    case (ScRange cat ch)
    show ?thesis
    proof (cases ch)
      case None
      with s ScRange show ?thesis by (simp add: quietly_refl)
    next
      case (Some ns)
      with s ScRange show ?thesis
        by (cases ns)
           (auto simp: quietly_refl modify_archive_def intro!: quietly_same split: outcome.splits)
    qed
  next
    case ScDone
    with s show ?thesis by (simp add: quietly_refl)
  qed
qed

lemma scan_run_quiet: "quietly (sc_world st) (sc_world (fold (scan_step a) sched st))"
proof (induction sched arbitrary: st)
  case Nil
  show ?case by (simp add: quietly_refl)
next
  case (Cons i sched)
  from quietly_trans[OF scan_step_quiet[of st a i] Cons[of "scan_step a i st"]]
  show ?case by simp
qed

lemma ScanCheckpoints_quiet: "quietly w (fst (ScanCheckpoints D sched a rng w))"
  unfolding ScanCheckpoints_def GetRootHAS_def
proof (rule andThen_quiet)
  show "quietly w (fst (GetPathHAS D a rootHASPath w))" by (rule GetPathHAS_quiet)
next
  fix x v
  show "quietly v (fst ((case x of
            Inl e \<Rightarrow> ret (Some e)
          | Inr state \<Rightarrow>
              (\<lambda>w. let rng = rng_Clamp D rng (has_Range D state);
                       st = fold (scan_step a) sched
                              \<lparr>sc_world = w, sc_req = scan_requests (RangePaths D rng),
                               sc_errs = [], sc_workers = replicate concurrency ScReceive,
                               sc_panicked = False\<rparr>
                   in if sc_panicked st then (sc_world st, Panics)
                      else if list_all (\<lambda>wk. wk = ScDone) (sc_workers st)
                           then (sc_world st, Returns (first_error (sc_errs st)))
                           else (sc_world st, Blocked))) v))"
  proof (cases x)
    case (Inl e)
    then show ?thesis by (simp add: ret_quiet)
  next
    case (Inr state)
    from scan_run_quiet[of "\<lparr>sc_world = v,
        sc_req = scan_requests (RangePaths D (rng_Clamp D rng (has_Range D state))),
        sc_errs = [], sc_workers = replicate concurrency ScReceive, sc_panicked = False\<rparr>" a sched]
    show ?thesis using Inr by (simp add: Let_def)
  qed
qed

lemma bscan_step_quiet: "quietly (sb_world st) (sb_world (bscan_step D a i st))"
proof (cases "sb_stopped st \<noteq> None")
  case True
  then show ?thesis by (simp add: bscan_step_def quietly_refl)
next
  case stopped: False
  show ?thesis
  proof (cases "i < length (sb_workers st)")
    case False
    with stopped show ?thesis
      by (auto simp: bscan_step_def quietly_refl modify_archive_def intro!: quietly_same
               split: list.splits)
  next
    case True
    with stopped have s: "bscan_step D a i st = bucket_worker_step D a i (sb_workers st ! i) st"
      by (simp add: bscan_step_def)
    show ?thesis
    proof (cases "sb_workers st ! i")
      case SbReceive
      with s show ?thesis by (auto simp: quietly_refl split: list.splits)
    next
      case (SbGet ix)
      obtain w' r where g: "GetCheckpointHAS D a ix (sb_world st) = (w', r)"
        by (cases "GetCheckpointHAS D a ix (sb_world st)")
      with GetPathHAS_quiet[of "sb_world st" D a "CategoryCheckpointPath ''history'' ix"]
      have "quietly (sb_world st) w'" by (simp add: GetCheckpointHAS_def)
      with s SbGet g show ?thesis by (auto split: outcome.splits sum.splits)
    next
      case (SbNote bs)
      with s show ?thesis
        by (cases bs) (auto simp: quietly_refl modify_archive_def intro!: quietly_same)
    next
      case SbDone
      with s show ?thesis by (simp add: quietly_refl)
    qed
  qed
qed

lemma bscan_run_quiet: "quietly (sb_world st) (sb_world (fold (bscan_step D a) sched st))"
proof (induction sched arbitrary: st)
  case Nil
  show ?case by (simp add: quietly_refl)
next
  case (Cons i sched)
  from quietly_trans[OF bscan_step_quiet[of st D a i] Cons[of "bscan_step D a i st"]]
  show ?case by simp
qed

lemma ScanBuckets_quiet: "quietly w (fst (ScanBuckets D sched a w))"
proof -
  have "quietly w (fst (andThen (ListAllBucketHashes a) f w))"
    if "\<And>x v. quietly v (fst (f x v))" for f :: "error + Hash list \<Rightarrow> (error option) exec"
    using ListAllBucketHashes_quiet that by (rule andThen_quiet)
  moreover have "quietly v (fst ((case x of
            Inl e \<Rightarrow> ret (Some e)
          | Inr listed \<Rightarrow>
              (\<lambda>w. let st = fold (bscan_step D a) sched
                               \<lparr>sb_world = w, sb_req = seqs, sb_listed = listed,
                                sb_lister_done = False,
                                sb_workers = replicate concurrency SbReceive,
                                sb_stopped = None\<rparr>
                   in case sb_stopped st of
                        Some out \<Rightarrow>
                          (sb_world st, case out of Fatal e \<Rightarrow> Fatal e | _ \<Rightarrow> Panics)
                      | None \<Rightarrow>
                          if list_all (\<lambda>wk. wk = SbDone) (sb_workers st) \<and> sb_lister_done st
                          then (sb_world st, Returns None)
                          else (sb_world st, Blocked))) v))" for x v seqs
  proof (cases x)
    case (Inl e)
    then show ?thesis by (simp add: ret_quiet)
  next
    case (Inr listed)
    from bscan_run_quiet[of "\<lparr>sb_world = v, sb_req = seqs, sb_listed = listed,
        sb_lister_done = False, sb_workers = replicate concurrency SbReceive,
        sb_stopped = None\<rparr>" D a sched]
    show ?thesis using Inr by (simp add: Let_def split: option.splits)
  qed
  ultimately show ?thesis unfolding ScanBuckets_def Let_def by blast
qed

lemma copyPath_events:
  assumes "copyPath src dst p w = (w', r)"
  shows "\<exists>evs. trace w' = trace w @ evs \<and> copies_only src dst None evs
           \<and> set (puts_of evs) \<subseteq> {(dst, p)}"
  using assms
  by (auto simp: copyPath_def andThen_def GetFile_def PutFile_def ret_def emit_def
        modify_archive_def split: option.splits sum.splits)

lemma copyPath_buckets:
  assumes "copyPath src dst p w = (w', r)"
  shows "CheckBucketsMissing (archives w' a) = CheckBucketsMissing (archives w a)"
  using assms
  by (auto simp: copyPath_def andThen_def GetFile_def PutFile_def ret_def emit_def
        modify_archive_def CheckBucketsMissing_def split: option.splits sum.splits)

lemma repair_category_events:
  assumes "repair_category src dst cat chks rh w = (w', r)"
  shows "(\<exists>evs. trace w' = trace w @ evs \<and> copies_only src dst None evs
            \<and> set (puts_of evs) \<subseteq> {dst} \<times> CategoryCheckpointPath cat ` set chks)
         \<and> (\<forall>a. CheckBucketsMissing (archives w' a) = CheckBucketsMissing (archives w a))"
  using assms
proof (induction chks arbitrary: rh w)
  case Nil
  then show ?case by simp
next
  case (Cons chk rest)
  obtain w1 r1 where c: "copyPath src dst (CategoryCheckpointPath cat chk) w = (w1, r1)"
    by (cases "copyPath src dst (CategoryCheckpointPath cat chk) w")
  from copyPath_events[OF c] obtain e1 where e1: "trace w1 = trace w @ e1"
    "copies_only src dst None e1" "set (puts_of e1) \<subseteq> {(dst, CategoryCheckpointPath cat chk)}"
    by blast
  note b1 = copyPath_buckets[OF c]
  show ?case
  proof (cases "r1 = Returns None")
    case True
    with Cons.prems c have
      "repair_category src dst cat rest (if cat = ''history'' then True else rh) w1 = (w', r)"
      by simp
    from Cons.IH[OF this] obtain e2 where e2: "trace w' = trace w1 @ e2"
      "copies_only src dst None e2"
      "set (puts_of e2) \<subseteq> {dst} \<times> CategoryCheckpointPath cat ` set rest"
      and b2: "\<forall>a. CheckBucketsMissing (archives w' a) = CheckBucketsMissing (archives w1 a)"
      by blast
    have "trace w' = trace w @ (e1 @ e2)" using e1(1) e2(1) by simp
    moreover have "copies_only src dst None (e1 @ e2)"
      using e1(2) e2(2) by (rule copies_only_appendI)
    moreover have "set (puts_of (e1 @ e2))
                     \<subseteq> {dst} \<times> CategoryCheckpointPath cat ` set (chk # rest)"
      using e1(3) e2(3) by auto
    ultimately have "\<exists>evs. trace w' = trace w @ evs \<and> copies_only src dst None evs
        \<and> set (puts_of evs) \<subseteq> {dst} \<times> CategoryCheckpointPath cat ` set (chk # rest)"
      by (intro exI[of _ "e1 @ e2"] conjI)
    moreover have "\<forall>a. CheckBucketsMissing (archives w' a) = CheckBucketsMissing (archives w a)"
      using b1 b2 by simp
    ultimately show ?thesis by (rule conjI)
  next
    case False
    with Cons.prems c have "w' = w1"
      by (auto split: outcome.splits option.splits)
    with e1 b1 show ?thesis by auto
  qed
qed

lemma repair_checkpoints_events:
  assumes "repair_checkpoints src dst missing rh w = (w', r)"
  shows "(\<exists>evs. trace w' = trace w @ evs \<and> copies_only src dst None evs
            \<and> set (puts_of evs) \<subseteq> {dst} \<times> missing_file_paths missing)
         \<and> (\<forall>a. CheckBucketsMissing (archives w' a) = CheckBucketsMissing (archives w a))"
  using assms
proof (induction missing arbitrary: rh w)
  case Nil
  then show ?case by simp
next
  case (Cons entry rest)
  obtain cat chks where entry: "entry = (cat, chks)" by (cases entry)
  obtain w1 r1 where c: "repair_category src dst cat chks rh w = (w1, r1)"
    by (cases "repair_category src dst cat chks rh w")
  from repair_category_events[OF c] obtain e1 where e1: "trace w1 = trace w @ e1"
    "copies_only src dst None e1"
    "set (puts_of e1) \<subseteq> {dst} \<times> CategoryCheckpointPath cat ` set chks"
    and b1: "\<forall>a. CheckBucketsMissing (archives w1 a) = CheckBucketsMissing (archives w a)"
    by blast
  have sub: "CategoryCheckpointPath cat ` set chks \<subseteq> missing_file_paths (entry # rest)"
    "missing_file_paths rest \<subseteq> missing_file_paths (entry # rest)"
    by (auto simp: missing_file_paths_def entry)
  show ?case
  proof (cases "\<exists>rh'. r1 = Returns rh'")
    case True
    then obtain rh' where "r1 = Returns rh'" by blast
    with Cons.prems c entry have "repair_checkpoints src dst rest rh' w1 = (w', r)" by simp
    from Cons.IH[OF this] obtain e2 where e2: "trace w' = trace w1 @ e2"
      "copies_only src dst None e2" "set (puts_of e2) \<subseteq> {dst} \<times> missing_file_paths rest"
      and b2: "\<forall>a. CheckBucketsMissing (archives w' a) = CheckBucketsMissing (archives w1 a)"
      by blast
    have "trace w' = trace w @ (e1 @ e2)" using e1(1) e2(1) by simp
    moreover have "copies_only src dst None (e1 @ e2)"
      using e1(2) e2(2) by (rule copies_only_appendI)
    moreover have "set (puts_of (e1 @ e2)) \<subseteq> {dst} \<times> missing_file_paths (entry # rest)"
      using e1(3) e2(3) sub by auto
    ultimately have "\<exists>evs. trace w' = trace w @ evs \<and> copies_only src dst None evs
        \<and> set (puts_of evs) \<subseteq> {dst} \<times> missing_file_paths (entry # rest)"
      by (intro exI[of _ "e1 @ e2"] conjI)
    moreover have "\<forall>a. CheckBucketsMissing (archives w' a) = CheckBucketsMissing (archives w a)"
      using b1 b2 by simp
    ultimately show ?thesis by (rule conjI)
  next
    case False
    with Cons.prems c entry have "w' = w1" by (auto split: outcome.splits)
    moreover have "set (puts_of e1) \<subseteq> {dst} \<times> missing_file_paths (entry # rest)"
      using e1(3) sub by auto
    ultimately show ?thesis using e1 b1 by auto
  qed
qed

lemma repair_buckets_events:
  assumes "repair_buckets src dst missing w = (w', r)"
  shows "(\<exists>evs. trace w' = trace w @ evs \<and> copies_only src dst None evs
            \<and> set (puts_of evs) \<subseteq> {dst} \<times> BucketPath ` fst ` set missing)
         \<and> (\<forall>a. CheckBucketsMissing (archives w' a) = CheckBucketsMissing (archives w a))"
  using assms
proof (induction missing arbitrary: w)
  case Nil
  then show ?case by simp
next
  case (Cons entry rest)
  obtain bkt present where entry: "entry = (bkt, present)" by (cases entry)
  obtain w1 r1 where c: "copyPath src dst (BucketPath bkt) w = (w1, r1)"
    by (cases "copyPath src dst (BucketPath bkt) w")
  from copyPath_events[OF c] obtain e1 where e1: "trace w1 = trace w @ e1"
    "copies_only src dst None e1" "set (puts_of e1) \<subseteq> {(dst, BucketPath bkt)}"
    by blast
  note b1 = copyPath_buckets[OF c]
  show ?case
  proof (cases "r1 = Returns None")
    case True
    with Cons.prems c entry have "repair_buckets src dst rest w1 = (w', r)" by simp
    from Cons.IH[OF this] obtain e2 where e2: "trace w' = trace w1 @ e2"
      "copies_only src dst None e2" "set (puts_of e2) \<subseteq> {dst} \<times> BucketPath ` fst ` set rest"
      and b2: "\<forall>a. CheckBucketsMissing (archives w' a) = CheckBucketsMissing (archives w1 a)"
      by blast
    have "trace w' = trace w @ (e1 @ e2)" using e1(1) e2(1) by simp
    moreover have "copies_only src dst None (e1 @ e2)"
      using e1(2) e2(2) by (rule copies_only_appendI)
    moreover have "set (puts_of (e1 @ e2)) \<subseteq> {dst} \<times> BucketPath ` fst ` set (entry # rest)"
      using e1(3) e2(3) entry by auto
    ultimately have "\<exists>evs. trace w' = trace w @ evs \<and> copies_only src dst None evs
        \<and> set (puts_of evs) \<subseteq> {dst} \<times> BucketPath ` fst ` set (entry # rest)"
      by (intro exI[of _ "e1 @ e2"] conjI)
    moreover have "\<forall>a. CheckBucketsMissing (archives w' a) = CheckBucketsMissing (archives w a)"
      using b1 b2 by simp
    ultimately show ?thesis by (rule conjI)
  next
    case False
    with Cons.prems c entry have "w' = w1" by (auto split: outcome.splits option.splits)
    moreover have "set (puts_of e1) \<subseteq> {dst} \<times> BucketPath ` fst ` set (entry # rest)"
      using e1(3) entry by auto
    ultimately show ?thesis using e1 b1 by auto
  qed
qed

lemma second_scan_quiet:
  "quietly w
     (fst ((if rh then (\<lambda>w. ScanCheckpoints D sched a rng (modify_archive a ClearCachedInfo w))
            else ret None) w))"
proof (cases rh)
  case True
  have "quietly w (modify_archive a ClearCachedInfo w)"
    by (rule quietly_same) (simp add: modify_archive_def)
  from quietly_trans[OF this ScanCheckpoints_quiet] True show ?thesis by simp
next
  case False
  then show ?thesis by (simp add: ret_quiet)
qed

lemma quietly_events:
  assumes "quietly w w'"
  obtains evs where "trace w' = trace w @ evs" "copies_only src dst None evs" "puts_of evs = []"
  using assms quiet_copies_only unfolding quietly_def by blast

text \<open>
  The events of a run of \<^verbatim>\<open>Repair\<close>, whatever its outcome: every write is at the end
  of a \<^verbatim>\<open>copyPath\<close> from the source to the destination, of a file that
  \<^verbatim>\<open>missingCheckpointFiles\<close> names or of a bucket that \<^verbatim>\<open>CheckBucketsMissing\<close> reports.
\<close>

lemma Repair_events:
  fixes D :: "('has, 'rng) deps"
  shows "\<exists>evs. trace (fst (Repair D s1 s2 s3 src dst rng w)) = trace w @ evs
           \<and> copies_only src dst None evs
           \<and> set (puts_of evs)
               \<subseteq> {dst} \<times> (missing_file_paths (Repair_missingCheckpointFiles D s1 dst rng w)
                           \<union> missing_bucket_paths
                               (archives (fst (Repair D s1 s2 s3 src dst rng w)) dst))"
    (is "\<exists>evs. ?P evs")
proof -
  let ?w' = "fst (Repair D s1 s2 s3 src dst rng w)"
  have quiet_done: "\<exists>evs. ?P evs" if "quietly w ?w'"
  proof -
    from that obtain evs where "trace ?w' = trace w @ evs" "copies_only src dst None evs"
      "puts_of evs = []" by (rule quietly_events)
    then have "?P evs" by simp
    then show ?thesis ..
  qed
  obtain w1 r1 where g: "GetRootHAS D dst w = (w1, r1)" by (cases "GetRootHAS D dst w")
  have q1: "quietly w w1"
    using GetPathHAS_quiet[of w D dst rootHASPath] g by (simp add: GetRootHAS_def)
  show ?thesis
  proof (cases "\<exists>state. r1 = Returns (Inr state)")
    case False
    with g have "?w' = w1"
      by (auto simp: Repair_def andThen_def ret_def split: outcome.splits sum.splits)
    with q1 have "quietly w ?w'" by simp
    then show ?thesis by (rule quiet_done)
  next
    case True
    then obtain state where r1: "r1 = Returns (Inr state)" by blast
    let ?rng = "rng_Clamp D rng (has_Range D state)"
    obtain w2 r2 where s: "ScanCheckpoints D s1 dst ?rng w1 = (w2, r2)"
      by (cases "ScanCheckpoints D s1 dst ?rng w1")
    have q2: "quietly w w2"
      using quietly_trans[OF q1 ScanCheckpoints_quiet[of w1 D s1 dst ?rng]] s by simp
    show ?thesis
    proof (cases "r2 = Returns None")
      case False
      with g r1 s have "?w' = w2"
        by (auto simp: Repair_def andThen_def ret_def Let_def
                 split: outcome.splits option.splits)
      with q2 have "quietly w ?w'" by simp
      then show ?thesis by (rule quiet_done)
    next
      case r2: True
      let ?M = "CheckCheckpointFilesMissing (archives w2 dst) (rng_Checkpoints D ?rng)"
      have M: "Repair_missingCheckpointFiles D s1 dst rng w = ?M"
        using g r1 s r2 by (simp add: Repair_missingCheckpointFiles_def Let_def)
      obtain w3 r3 where c: "repair_checkpoints src dst ?M False w2 = (w3, r3)"
        by (cases "repair_checkpoints src dst ?M False w2")
      from q2 obtain e2 where e2: "trace w2 = trace w @ e2" "copies_only src dst None e2"
        "puts_of e2 = []" by (rule quietly_events)
      from repair_checkpoints_events[OF c] obtain e3 where e3: "trace w3 = trace w2 @ e3"
        "copies_only src dst None e3" "set (puts_of e3) \<subseteq> {dst} \<times> missing_file_paths ?M"
        by blast
      have t3: "trace w3 = trace w @ (e2 @ e3)" using e2(1) e3(1) by simp
      have c3: "copies_only src dst None (e2 @ e3)"
        using e2(2) e3(2) by (rule copies_only_appendI)
      have p3: "set (puts_of (e2 @ e3)) \<subseteq> {dst} \<times> missing_file_paths ?M"
        using e2(3) e3(3) by simp
      have files_done: "\<exists>evs. ?P evs" if "quietly w3 ?w'"
      proof -
        from that obtain e4 where e4: "trace ?w' = trace w3 @ e4" "copies_only src dst None e4"
          "puts_of e4 = []" by (rule quietly_events)
        have "trace ?w' = trace w @ ((e2 @ e3) @ e4)" using t3 e4(1) by simp
        moreover have "copies_only src dst None ((e2 @ e3) @ e4)"
          using c3 e4(2) by (rule copies_only_appendI)
        moreover have "set (puts_of ((e2 @ e3) @ e4)) \<subseteq> {dst} \<times> missing_file_paths ?M"
          using p3 e4(3) by simp
        ultimately have "?P ((e2 @ e3) @ e4)" unfolding M by blast
        then show ?thesis ..
      qed
      show ?thesis
      proof (cases "\<exists>rh. r3 = Returns rh")
        case False
        with g r1 s r2 c have "?w' = w3"
          by (auto simp: Repair_def andThen_def ret_def Let_def split: outcome.splits)
        then have "quietly w3 ?w'" by (simp add: quietly_refl)
        then show ?thesis by (rule files_done)
      next
        case True
        then obtain rh where r3: "r3 = Returns rh" by blast
        let ?second = "if rh then (\<lambda>w. ScanCheckpoints D s2 dst ?rng
                                          (modify_archive dst ClearCachedInfo w))
                       else ret None"
        obtain w4 r4 where sec: "?second w3 = (w4, r4)" by (cases "?second w3")
        have q4: "quietly w3 w4"
          using second_scan_quiet[of w3 rh D s2 dst ?rng] sec by simp
        show ?thesis
        proof (cases "r4 = Returns None")
          case False
          with g r1 s r2 c r3 sec have "?w' = w4"
            by (auto simp: Repair_def andThen_def ret_def Let_def
                     split: outcome.splits option.splits)
          with q4 have "quietly w3 ?w'" by simp
          then show ?thesis by (rule files_done)
        next
          case r4: True
          obtain w5 r5 where sb: "ScanBuckets D s3 dst w4 = (w5, r5)"
            by (cases "ScanBuckets D s3 dst w4")
          have q5: "quietly w3 w5"
            using quietly_trans[OF q4 ScanBuckets_quiet[of w4 D s3 dst]] sb by simp
          show ?thesis
          proof (cases "r5 = Returns None")
            case False
            with g r1 s r2 c r3 sec r4 sb have "?w' = w5"
              by (auto simp: Repair_def andThen_def ret_def Let_def
                       split: outcome.splits option.splits)
            with q5 have "quietly w3 ?w'" by simp
            then show ?thesis by (rule files_done)
          next
            case r5: True
            let ?B = "CheckBucketsMissing (archives w5 dst)"
            obtain w6 r6 where rb: "repair_buckets src dst ?B w5 = (w6, r6)"
              by (cases "repair_buckets src dst ?B w5")
            from g r1 s r2 c r3 sec r4 sb r5 rb have w6: "?w' = w6"
              by (auto simp: Repair_def andThen_def ret_def Let_def split: outcome.splits)
            from q5 obtain e5 where e5: "trace w5 = trace w3 @ e5"
              "copies_only src dst None e5" "puts_of e5 = []" by (rule quietly_events)
            from repair_buckets_events[OF rb] obtain e6 where e6: "trace w6 = trace w5 @ e6"
              "copies_only src dst None e6" "set (puts_of e6) \<subseteq> {dst} \<times> BucketPath ` fst ` set ?B"
              and b6: "CheckBucketsMissing (archives w6 dst) = ?B"
              by blast
            have "trace w6 = trace w @ (((e2 @ e3) @ e5) @ e6)" using t3 e5(1) e6(1) by simp
            moreover have "copies_only src dst None (((e2 @ e3) @ e5) @ e6)"
              using copies_only_appendI[OF copies_only_appendI[OF c3 e5(2)] e6(2)] .
            moreover have "set (puts_of (((e2 @ e3) @ e5) @ e6))
                \<subseteq> {dst} \<times> (missing_file_paths ?M \<union> missing_bucket_paths (archives w6 dst))"
              using p3 e5(3) e6(3) by (auto simp: missing_bucket_paths_def b6)
            ultimately have "?P (((e2 @ e3) @ e5) @ e6)" unfolding M w6 by blast
            then show ?thesis ..
          qed
        qed
      qed
    qed
  qed
qed

lemma missing_file_paths_worker:
  assumes "p \<in> missing_file_paths (CheckCheckpointFilesMissing arch chks)"
  shows "worker_path p"
proof -
  from assms obtain cat cs chk where
    m: "(cat, cs) \<in> set (CheckCheckpointFilesMissing arch chks)"
    and p: "p = CategoryCheckpointPath cat chk"
    by (auto simp: missing_file_paths_def)
  from m CheckCheckpointFilesMissing_keys[of arch chks] have "cat \<in> set Categories"
    by force
  with p show ?thesis by (auto simp: worker_path_def)
qed

lemma Repair_missing_worker:
  fixes D :: "('has, 'rng) deps"
  assumes "p \<in> missing_file_paths (Repair_missingCheckpointFiles D s1 dst rng w)"
  shows "worker_path p"
proof -
  have "Repair_missingCheckpointFiles D s1 dst rng w = []
        \<or> (\<exists>arch chks. Repair_missingCheckpointFiles D s1 dst rng w
                           = CheckCheckpointFilesMissing arch chks)"
    by (auto simp: Repair_missingCheckpointFiles_def Let_def
             split: prod.splits outcome.splits sum.splits option.splits)
  then show ?thesis
  proof
    assume "Repair_missingCheckpointFiles D s1 dst rng w = []"
    with assms show ?thesis by (simp add: missing_file_paths_def)
  next
    assume "\<exists>arch chks. Repair_missingCheckpointFiles D s1 dst rng w
                         = CheckCheckpointFilesMissing arch chks"
    then obtain arch chks where
      "Repair_missingCheckpointFiles D s1 dst rng w = CheckCheckpointFilesMissing arch chks"
      by blast
    with assms show ?thesis by (simp add: missing_file_paths_worker)
  qed
qed

lemma missing_bucket_paths_worker: "p \<in> missing_bucket_paths arch \<Longrightarrow> worker_path p"
  by (auto simp: missing_bucket_paths_def worker_path_def)

text \<open>
  C4. \<^verbatim>\<open>Repair\<close> never writes the root manifest of the destination: in every run, under
  every schedule of its worker pools and whatever the outcome, no \<^verbatim>\<open>Put\<close> of the path
  \<^verbatim>\<open>.well-known/stellar-history.json\<close> occurs on the destination. Every write of the
  run goes to the destination, directly follows the read of the same path from the
  source (it is the second half of a \<^verbatim>\<open>copyPath\<close>), and its path is the path of a
  checkpoint file that \<^verbatim>\<open>missingCheckpointFiles\<close> names or of a bucket that
  \<^verbatim>\<open>CheckBucketsMissing\<close> reports missing.
\<close>

theorem Repair_never_writes_root:
  fixes D :: "('has, 'rng) deps"
  shows "EvPut dst rootHASPath
           \<notin> set (new_events w (fst (Repair D s1 s2 s3 src dst rng w)))
       \<and> copies_only src dst None (new_events w (fst (Repair D s1 s2 s3 src dst rng w)))
       \<and> set (puts_of (new_events w (fst (Repair D s1 s2 s3 src dst rng w))))
           \<subseteq> {dst} \<times> (missing_file_paths (Repair_missingCheckpointFiles D s1 dst rng w)
                       \<union> missing_bucket_paths
                           (archives (fst (Repair D s1 s2 s3 src dst rng w)) dst))"
proof -
  let ?w' = "fst (Repair D s1 s2 s3 src dst rng w)"
  from Repair_events[of D s1 s2 s3 src dst rng w] obtain evs where
    t: "trace ?w' = trace w @ evs" and c: "copies_only src dst None evs"
    and p: "set (puts_of evs)
              \<subseteq> {dst} \<times> (missing_file_paths (Repair_missingCheckpointFiles D s1 dst rng w)
                          \<union> missing_bucket_paths (archives ?w' dst))"
    by blast
  from t have n: "new_events w ?w' = evs" by (simp add: new_events_def)
  have "EvPut dst rootHASPath \<notin> set evs"
  proof
    assume "EvPut dst rootHASPath \<in> set evs"
    then have "(dst, rootHASPath) \<in> set (puts_of evs)" by (simp add: puts_of_member)
    with p have "rootHASPath \<in> missing_file_paths (Repair_missingCheckpointFiles D s1 dst rng w)
                 \<or> rootHASPath \<in> missing_bucket_paths (archives ?w' dst)" by auto
    then have "worker_path rootHASPath"
    proof
      assume "rootHASPath \<in> missing_file_paths (Repair_missingCheckpointFiles D s1 dst rng w)"
      then show ?thesis by (rule Repair_missing_worker)
    next
      assume "rootHASPath \<in> missing_bucket_paths (archives ?w' dst)"
      then show ?thesis by (rule missing_bucket_paths_worker)
    qed
    then show False using worker_path_not_root by blast
  qed
  with c p show ?thesis unfolding n by simp
qed
end
